theory Spec2Isabelle
  imports Main "HOL-Library.Word"
begin

unbundle bit_operations_syntax

section \<open>Data model\<close>

text \<open>
  The generator of \<^verbatim>\<open>iptc_profile_advanced_fuzzer.cc\<close> works on a read-only byte
  buffer \<^verbatim>\<open>Data\<close> of \<^verbatim>\<open>Size\<close> bytes and builds a \<^verbatim>\<open>std::vector<uint8_t>\<close>.
  Bytes are \<open>8 word\<close>, the declared length is a \<open>16 word\<close> (\<^verbatim>\<open>uint16_t\<close>) and every
  \<^verbatim>\<open>size_t\<close> (the size, the cursor, the loop counters) is a \<open>64 word\<close>, so that
  \<^verbatim>\<open>dataOffset + 1\<close> and \<^verbatim>\<open>Size - dataOffset\<close> wrap as they do in the program.
  The buffer is a list; the caller's contract that \<^verbatim>\<open>Data\<close> points to exactly
  \<^verbatim>\<open>Size\<close> bytes is the hypothesis \<open>length Data = unat Size\<close> of the theorems.
\<close>

type_synonym u8 = "8 word"
type_synonym u16 = "16 word"
type_synonym size_t = "64 word"

text \<open>A read of \<^verbatim>\<open>Data[k]\<close> outside the buffer is undefined behaviour in the program;
  here it is a value of its own, so that every read is a branch of the model.\<close>

datatype fault = OutOfBounds

definition Data_at :: "u8 list \<Rightarrow> size_t \<Rightarrow> fault + u8" where
  "Data_at Data k = (if unat k < length Data then Inr (Data ! unat k) else Inl OutOfBounds)"

text \<open>The two local variables every step of the generator updates: the read cursor
  and the vector under construction.\<close>

record gen_state =
  dataOffset :: size_t
  iptcProfile :: "u8 list"

definition IPTC_SENTINEL :: u8 where
  "IPTC_SENTINEL = 0x1c"

definition push_back :: "u8 \<Rightarrow> gen_state \<Rightarrow> gen_state" where
  "push_back b s = s\<lparr>iptcProfile := iptcProfile s @ [b]\<rparr>"

section \<open>The generator\<close>

text \<open>\<^verbatim>\<open>size_t numRecords = (Size > 0) ? (Data[0] % 10) + 1 : 1;\<close>\<close>

definition numRecords :: "u8 list \<Rightarrow> size_t \<Rightarrow> fault + size_t" where
  "numRecords Data Size =
     (if 0 < Size then
        (case Data_at Data 0 of Inl e \<Rightarrow> Inl e | Inr b \<Rightarrow> Inr (ucast (b mod 10) + 1))
      else Inr 1)"

text \<open>\<^verbatim>\<open>(dataOffset < Size) ? Data[dataOffset++] : dflt\<close>, the expression that yields the
  dataset byte (\<open>dflt = 2\<close>) and the record byte (\<open>dflt = 5\<close>).\<close>

definition next_or :: "u8 list \<Rightarrow> size_t \<Rightarrow> u8 \<Rightarrow> size_t \<Rightarrow> fault + (u8 \<times> size_t)" where
  "next_or Data Size dflt off =
     (if off < Size then
        (case Data_at Data off of Inl e \<Rightarrow> Inl e | Inr b \<Rightarrow> Inr (b, off + 1))
      else Inr (dflt, off))"

text \<open>Lines 76 to 82: the length read from the input, on two bytes, one byte or none.\<close>

definition derive_length :: "u8 list \<Rightarrow> size_t \<Rightarrow> size_t \<Rightarrow> fault + (u16 \<times> size_t)" where
  "derive_length Data Size off =
     (if off + 1 < Size then
        (case Data_at Data off of Inl e \<Rightarrow> Inl e | Inr hi \<Rightarrow>
         (case Data_at Data (off + 1) of Inl e \<Rightarrow> Inl e | Inr lo \<Rightarrow>
            Inr (push_bit 8 (ucast hi) OR ucast lo, off + 2)))
      else if off < Size then
        (case Data_at Data off of Inl e \<Rightarrow> Inl e | Inr b \<Rightarrow> Inr (ucast b, off + 1))
      else Inr (0, off))"

text \<open>Lines 85 to 94: the override of the length of the first record.\<close>

definition override_length :: "u8 list \<Rightarrow> size_t \<Rightarrow> size_t \<Rightarrow> u16 \<Rightarrow> fault + u16" where
  "override_length Data Size i len =
     (if i = 0 \<and> 4 < Size then
        (case Data_at Data 3 of Inl e \<Rightarrow> Inl e
         | Inr b \<Rightarrow>
             Inr (if b mod 4 = 0 then 0xFFFF
                  else if b mod 4 = 1 then 0xFFF0
                  else if b mod 4 = 2 then 0x7FFF
                  else len))
      else Inr len)"

text \<open>The copy loop
  \<^verbatim>\<open>for (size_t j = 0; j < bound && dataOffset < Size; j++) push_back(Data[dataOffset++]);\<close>
  of lines 102, 120, 137, 153 and 165, started at \<open>j = 0\<close>.\<close>

function copy_bytes :: "u8 list \<Rightarrow> size_t \<Rightarrow> size_t \<Rightarrow> size_t \<Rightarrow> gen_state \<Rightarrow> fault + gen_state" where
  "copy_bytes Data Size bound j s =
     (if j < bound \<and> dataOffset s < Size then
        (case Data_at Data (dataOffset s) of Inl e \<Rightarrow> Inl e
         | Inr b \<Rightarrow>
             copy_bytes Data Size bound (j + 1)
               \<lparr>dataOffset = dataOffset s + 1, iptcProfile = iptcProfile s @ [b]\<rparr>)
      else Inr s)"
  by pat_completeness auto
termination
proof (relation "measure (\<lambda>(Data, Size, bound, j, s). unat bound - unat j)")
  show "wf (measure (\<lambda>(Data, Size, bound, j, s). unat bound - unat j))"
    by simp
next
  fix Data :: "u8 list" and Size bound j :: size_t and s :: gen_state and b :: u8
  assume "j < bound \<and> dataOffset s < Size"
  then have "j < bound" by simp
  then have "unat (j + 1) = Suc (unat j)" "unat j < unat bound"
    by unat_arith+
  then show "((Data, Size, bound, j + 1,
                \<lparr>dataOffset = dataOffset s + 1, iptcProfile = iptcProfile s @ [b]\<rparr>),
               (Data, Size, bound, j, s))
             \<in> measure (\<lambda>(Data, Size, bound, j, s). unat bound - unat j)"
    by simp
qed

text \<open>The padding loop of lines 108 to 110:
  \<^verbatim>\<open>for (size_t j = actualLength; j < length; j++) push_back('A' + (j % 26));\<close>\<close>

function pad_pattern :: "size_t \<Rightarrow> size_t \<Rightarrow> u8 list \<Rightarrow> u8 list" where
  "pad_pattern len j out =
     (if j < len then pad_pattern len (j + 1) (out @ [ucast (0x41 + j mod 26)]) else out)"
  by pat_completeness auto
termination
proof (relation "measure (\<lambda>(len, j, out). unat len - unat j)")
  show "wf (measure (\<lambda>(len, j, out). unat len - unat j))"
    by simp
next
  fix len j :: size_t and out :: "u8 list"
  assume "j < len"
  then have "unat (j + 1) = Suc (unat j)" "unat j < unat len"
    by unat_arith+
  then show "((len, j + 1, out @ [ucast (0x41 + j mod 26)]), (len, j, out))
             \<in> measure (\<lambda>(len, j, out). unat len - unat j)"
    by simp
qed

text \<open>The body of the main loop, lines 64 to 111, for the loop counter \<open>i\<close>.\<close>

definition base_record :: "u8 list \<Rightarrow> size_t \<Rightarrow> size_t \<Rightarrow> gen_state \<Rightarrow> fault + gen_state" where
  "base_record Data Size i s =
     (case next_or Data Size 2 (dataOffset s) of Inl e \<Rightarrow> Inl e | Inr (dataset, off1) \<Rightarrow>
      (case next_or Data Size 5 off1 of Inl e \<Rightarrow> Inl e | Inr (record, off2) \<Rightarrow>
       (case derive_length Data Size off2 of Inl e \<Rightarrow> Inl e | Inr (len0, off3) \<Rightarrow>
        (case override_length Data Size i len0 of Inl e \<Rightarrow> Inl e | Inr len \<Rightarrow>
          (let out = iptcProfile s @
                 [IPTC_SENTINEL, dataset, record,
                  ucast (drop_bit 8 len AND 0xFF), ucast (len AND 0xFF)];
               actualLength = min (ucast len) (Size - off3)
           in (case copy_bytes Data Size actualLength 0
                      \<lparr>dataOffset = off3, iptcProfile = out\<rparr> of
                 Inl e \<Rightarrow> Inl e
               | Inr s1 \<Rightarrow>
                   Inr (if actualLength < ucast len
                        then s1\<lparr>iptcProfile :=
                                  pad_pattern (ucast len) actualLength (iptcProfile s1)\<rparr>
                        else s1)))))))"

text \<open>The main loop, line 63:
  \<^verbatim>\<open>for (size_t i = 0; i < numRecords && dataOffset < Size; i++)\<close>.
  It returns the counter at exit (the number of records emitted) with the state.\<close>

function main_loop :: "u8 list \<Rightarrow> size_t \<Rightarrow> size_t \<Rightarrow> size_t \<Rightarrow> gen_state \<Rightarrow> fault + (size_t \<times> gen_state)" where
  "main_loop Data Size n i s =
     (if i < n \<and> dataOffset s < Size then
        (case base_record Data Size i s of Inl e \<Rightarrow> Inl e
         | Inr s' \<Rightarrow> main_loop Data Size n (i + 1) s')
      else Inr (i, s))"
  by pat_completeness auto
termination
proof (relation "measure (\<lambda>(Data, Size, n, i, s). unat n - unat i)")
  show "wf (measure (\<lambda>(Data, Size, n, i, s). unat n - unat i))"
    by simp
next
  fix Data :: "u8 list" and Size n i :: size_t and s s' :: gen_state
  assume "i < n \<and> dataOffset s < Size"
  then have "i < n" by simp
  then have "unat (i + 1) = Suc (unat i)" "unat i < unat n"
    by unat_arith+
  then show "((Data, Size, n, i + 1, s'), (Data, Size, n, i, s))
             \<in> measure (\<lambda>(Data, Size, n, i, s). unat n - unat i)"
    by simp
qed

text \<open>The four supplementary injections, lines 115 to 168. \<^verbatim>\<open>&&\<close> evaluates its
  right operand only when the left one holds.\<close>

definition orphan_sentinel :: "u8 list \<Rightarrow> size_t \<Rightarrow> gen_state \<Rightarrow> fault + gen_state" where
  "orphan_sentinel Data Size s =
     (if 5 < Size then
        (case Data_at Data 4 of Inl e \<Rightarrow> Inl e
         | Inr b \<Rightarrow>
             if b mod 4 = 0
             then copy_bytes Data Size 10 0 (push_back IPTC_SENTINEL s)
             else Inr s)
      else Inr s)"

definition overclaimed_length :: "u8 list \<Rightarrow> size_t \<Rightarrow> gen_state \<Rightarrow> fault + gen_state" where
  "overclaimed_length Data Size s =
     (if 6 < Size then
        (case Data_at Data 5 of Inl e \<Rightarrow> Inl e
         | Inr b \<Rightarrow>
             if b mod 4 = 1
             then (let excessLength = (1000 :: u16) in
                   copy_bytes Data Size 20 0
                     (push_back (ucast (excessLength AND 0xFF))
                       (push_back (ucast (drop_bit 8 excessLength AND 0xFF))
                         (push_back 5 (push_back 2 (push_back IPTC_SENTINEL s))))))
             else Inr s)
      else Inr s)"

definition zero_length_with_data :: "u8 list \<Rightarrow> size_t \<Rightarrow> gen_state \<Rightarrow> fault + gen_state" where
  "zero_length_with_data Data Size s =
     (if 7 < Size then
        (case Data_at Data 6 of Inl e \<Rightarrow> Inl e
         | Inr b \<Rightarrow>
             if b mod 4 = 2
             then copy_bytes Data Size 10 0
                    (push_back 0 (push_back 0
                      (push_back 5 (push_back 2 (push_back IPTC_SENTINEL s)))))
             else Inr s)
      else Inr s)"

definition sentinel_flooding :: "u8 list \<Rightarrow> size_t \<Rightarrow> gen_state \<Rightarrow> fault + gen_state" where
  "sentinel_flooding Data Size s =
     (if 8 < Size then
        (case Data_at Data 7 of Inl e \<Rightarrow> Inl e
         | Inr b \<Rightarrow>
             if b mod 4 = 3
             then copy_bytes Data Size 10 0
                    (push_back IPTC_SENTINEL (push_back IPTC_SENTINEL (push_back IPTC_SENTINEL
                      (push_back IPTC_SENTINEL (push_back IPTC_SENTINEL s)))))
             else Inr s)
      else Inr s)"

text \<open>The generator up to and including the main loop: the number of records emitted
  and the state the injections start from.\<close>

definition base_records :: "u8 list \<Rightarrow> size_t \<Rightarrow> fault + (size_t \<times> gen_state)" where
  "base_records Data Size =
     (case numRecords Data Size of Inl e \<Rightarrow> Inl e
      | Inr n \<Rightarrow> main_loop Data Size n 0 \<lparr>dataOffset = 1, iptcProfile = []\<rparr>)"

definition CreateMalformedIPTCProfile :: "u8 list \<Rightarrow> size_t \<Rightarrow> fault + u8 list" where
  "CreateMalformedIPTCProfile Data Size =
     (case base_records Data Size of Inl e \<Rightarrow> Inl e | Inr (i, s0) \<Rightarrow>
      (case orphan_sentinel Data Size s0 of Inl e \<Rightarrow> Inl e | Inr s1 \<Rightarrow>
       (case overclaimed_length Data Size s1 of Inl e \<Rightarrow> Inl e | Inr s2 \<Rightarrow>
        (case zero_length_with_data Data Size s2 of Inl e \<Rightarrow> Inl e | Inr s3 \<Rightarrow>
         (case sentinel_flooding Data Size s3 of Inl e \<Rightarrow> Inl e | Inr s4 \<Rightarrow>
            Inr (iptcProfile s4))))))"


section \<open>The fuzzer entry points\<close>

text \<open>\<^verbatim>\<open>IsInvalidSize\<close> of \<^verbatim>\<open>utils.cc\<close>; both entry points pass \<^verbatim>\<open>MIN_IPTC_SIZE\<close> for
  the parameter \<^verbatim>\<open>min\<close>.\<close>

definition IsInvalidSize :: "size_t \<Rightarrow> size_t \<Rightarrow> bool" where
  "IsInvalidSize sz minimum =
     (if sz < minimum then True else if 8192 < sz then True else False)"

definition MIN_IPTC_SIZE :: size_t where
  "MIN_IPTC_SIZE = 8"

definition MAX_IPTC_SIZE :: size_t where
  "MAX_IPTC_SIZE = 65536"

text \<open>
  Magick++ is not part of the repository. Nothing it returns decides a branch of the
  entry points: a call either returns or throws, and that is all the control flow sees.
  The library is therefore a parameter that says, for the events so far and the call
  being made, whether the call throws and what. An exception is a \<^verbatim>\<open>Magick::Exception\<close>
  (what the \<^verbatim>\<open>catch\<close> clauses name) or anything else.
\<close>

datatype exn = Magick_Exception | Other_exception

datatype magick_call =
    Image_ctor nat nat string
  | Image_default_ctor
  | Image_copy_ctor
  | Blob_ctor "u8 list"
  | Blob_default_ctor
  | Image_profile_set string "u8 list"
  | Image_profile_get string
  | Image_write string
  | Image_read
  | Image_identify
  | Image_resize nat nat
  | Image_attribute string
  | Image_fileName
  | Image_format
  | Image_size

text \<open>The trace of an entry point: the library calls made and the runs of the
  generator, in order.\<close>

datatype event = Call magick_call | Generate_profile

type_synonym library = "event list \<Rightarrow> magick_call \<Rightarrow> exn option"

text \<open>A statement takes the trace so far and yields the exception it ends with, if
  any, and the extended trace.\<close>

type_synonym stmt = "library \<Rightarrow> event list \<Rightarrow> exn option \<times> event list"

definition call :: "magick_call \<Rightarrow> stmt" where
  "call c lib tr = (lib tr c, tr @ [Call c])"

text \<open>Statements in sequence: the first exception ends the block.\<close>

fun block :: "stmt list \<Rightarrow> stmt" where
  "block [] lib tr = (None, tr)"
| "block (st # sts) lib tr =
     (case st lib tr of
        (Some e, tr') \<Rightarrow> (Some e, tr')
      | (None, tr') \<Rightarrow> block sts lib tr')"

text \<open>\<^verbatim>\<open>try { st } catch (Magick::Exception &e) { }\<close>\<close>

definition try_catch_Magick :: "stmt \<Rightarrow> stmt" where
  "try_catch_Magick st lib tr =
     (case st lib tr of
        (Some Magick_Exception, tr') \<Rightarrow> (None, tr')
      | r \<Rightarrow> r)"

text \<open>What the caller of an entry point sees: the returned \<^verbatim>\<open>int\<close>, an exception that
  left the function, or the undefined behaviour of an out-of-bounds read.\<close>

datatype outcome = Returns int | Throws exn | Undefined_behaviour fault

text \<open>\<^verbatim>\<open>iptc_profile_advanced_fuzzer.cc\<close>, lines 185 to 246: the statements of the outer
  \<^verbatim>\<open>try\<close> block after the profile has been generated (\<open>profile\<close> is the vector
  \<^verbatim>\<open>iptcProfile\<close>).\<close>

definition advanced_tests :: "u8 list \<Rightarrow> u8 list \<Rightarrow> stmt" where
  "advanced_tests Data profile =
     block
      [call (Blob_ctor profile),
       call (Image_profile_set ''iptc'' profile),
       try_catch_Magick (block
         [call Blob_default_ctor,
          call (Image_write ''TIFF''),
          call Image_default_ctor,
          call Image_read,
          call (Image_profile_get ''iptc'')]),
       try_catch_Magick (block
         [call Image_identify]),
       try_catch_Magick (block
         [call Image_copy_ctor,
          call (Image_resize 20 20),
          call (Image_profile_get ''iptc'')]),
       try_catch_Magick (block
         [call (Blob_ctor Data),
          call (Image_profile_set ''exif'' Data),
          call Blob_default_ctor,
          call (Image_profile_set ''iptc'' []),
          call (Image_profile_set ''iptc'' profile)])]"

text \<open>The outer \<^verbatim>\<open>catch (Magick::Exception &e)\<close> followed by \<^verbatim>\<open>return 0\<close>.\<close>

definition catch_and_return :: "exn option \<times> event list \<Rightarrow> outcome \<times> event list" where
  "catch_and_return r =
     (case r of
        (Some Other_exception, tr) \<Rightarrow> (Throws Other_exception, tr)
      | (_, tr) \<Rightarrow> (Returns 0, tr))"

text \<open>\<^verbatim>\<open>LLVMFuzzerTestOneInput\<close> of \<^verbatim>\<open>iptc_profile_advanced_fuzzer.cc\<close>.\<close>

definition LLVMFuzzerTestOneInput_advanced :: "library \<Rightarrow> u8 list \<Rightarrow> size_t \<Rightarrow> outcome \<times> event list" where
  "LLVMFuzzerTestOneInput_advanced lib Data Size =
     (if IsInvalidSize Size MIN_IPTC_SIZE \<or> MAX_IPTC_SIZE < Size then (Returns 0, [])
      else
        (case call (Image_ctor 10 10 ''white'') lib [] of
           (Some e, tr) \<Rightarrow> catch_and_return (Some e, tr)
         | (None, tr) \<Rightarrow>
             (case CreateMalformedIPTCProfile Data Size of
                Inl f \<Rightarrow> (Undefined_behaviour f, tr @ [Generate_profile])
              | Inr profile \<Rightarrow>
                  catch_and_return
                    (advanced_tests Data profile lib (tr @ [Generate_profile])))))"

text \<open>\<^verbatim>\<open>LLVMFuzzerTestOneInput\<close> of \<^verbatim>\<open>iptc_profile_fuzzer.cc\<close>, which hands the input
  to the library as it is.\<close>

definition basic_tests :: "u8 list \<Rightarrow> stmt" where
  "basic_tests Data =
     block
      [call (Image_ctor 10 10 ''white''),
       call (Blob_ctor Data),
       call (Image_profile_set ''iptc'' Data),
       try_catch_Magick (block
         [call Blob_default_ctor,
          call (Image_write ''TIFF''),
          call Image_default_ctor,
          call Image_read,
          call (Image_profile_get ''iptc'')]),
       try_catch_Magick (block
         [call (Image_attribute ''IPTC:*''),
          call Image_fileName,
          call Image_format,
          call Image_size])]"

definition LLVMFuzzerTestOneInput_basic :: "library \<Rightarrow> u8 list \<Rightarrow> size_t \<Rightarrow> outcome \<times> event list" where
  "LLVMFuzzerTestOneInput_basic lib Data Size =
     (if IsInvalidSize Size MIN_IPTC_SIZE \<or> MAX_IPTC_SIZE < Size then (Returns 0, [])
      else catch_and_return (basic_tests Data lib []))"


section \<open>Notions used in the statements\<close>

text \<open>The byte \<^verbatim>\<open>'A' + (j % 26)\<close> of the padding loop, as a function of the number \<open>j\<close>.\<close>

definition pad_byte :: "nat \<Rightarrow> u8" where
  "pad_byte j = of_nat (65 + j mod 26)"

text \<open>The two bytes \<^verbatim>\<open>(length >> 8) & 0xFF\<close> and \<^verbatim>\<open>length & 0xFF\<close> pushed for a
  declared length.\<close>

definition length_bytes :: "u16 \<Rightarrow> u8 list" where
  "length_bytes len = [ucast (drop_bit 8 len AND 0xFF), ucast (len AND 0xFF)]"

text \<open>The same state with \<open>p\<close> put in front of the bytes built so far.\<close>

definition prepend :: "u8 list \<Rightarrow> gen_state \<Rightarrow> gen_state" where
  "prepend p s = s\<lparr>iptcProfile := p @ iptcProfile s\<rparr>"



text \<open>A statement that never shortens the trace.\<close>

definition extending :: "stmt \<Rightarrow> bool" where
  "extending st = (\<forall>lib tr. length tr \<le> length (snd (st lib tr)))"



section \<open>Auxiliary facts\<close>

declare copy_bytes.simps [simp del] pad_pattern.simps [simp del] main_loop.simps [simp del]

subsection \<open>Word arithmetic\<close>

lemma unat_Suc_less: "j < bound \<Longrightarrow> unat (j + 1) = Suc (unat j)" for j bound :: size_t
  by unat_arith

lemma unat_ucast_16_64: "unat (ucast (len :: u16) :: size_t) = unat len"
proof -
  have "unat len < 2 ^ 16" using unsigned_less [of len, where 'a = nat] by simp
  then have "unat len < 2 ^ 64" by simp
  then show ?thesis
    by (simp add: unsigned_ucast_eq take_bit_nat_eq_self)
qed

lemma unat_min_word: "unat (min a b) = min (unat a) (unat b)" for a b :: size_t
  by (simp add: min_def word_le_nat_alt)

lemma unat_add_of_nat: "unat a + k < 2 ^ 64 \<Longrightarrow> unat (a + of_nat k) = unat a + k" for a :: size_t
  using unat_add_lem [of a "of_nat k"] by (simp add: unat_of_nat)

lemma unat_len16: "unat (len :: u16) \<le> 65535"
  using unsigned_less [of len, where 'a = nat] by simp

lemma unat_plus1_neq7: "8 \<le> unat off \<Longrightarrow> unat (off + 1) \<noteq> 7" for off :: size_t
proof
  assume ge: "8 \<le> unat off" and e: "unat (off + 1) = 7"
  have "off + 1 = 7" using e by (simp add: word_unat_eq_iff)
  then have "off = 6" by simp
  with ge show False by simp
qed

lemma len_bytes: "256 * unat (ucast (drop_bit 8 len AND 0xFF) :: u8) + unat (ucast (len AND 0xFF) :: u8) = unat len" for len :: u16
proof -
  have a: "len AND 0xFF = take_bit 8 len" "drop_bit 8 len AND 0xFF = take_bit 8 (drop_bit 8 len)"
    by (simp_all add: take_bit_eq_mask mask_eq_exp_minus_1)
  have "unat len < 2 ^ 16" using unsigned_less [of len, where 'a = nat] by simp
  then have "unat len div 256 < 256" by simp
  then show ?thesis
    unfolding a
    by (simp add: unsigned_ucast_eq unsigned_take_bit_eq unsigned_drop_bit_eq take_bit_eq_mod drop_bit_eq_div unat_mod unat_div)
qed

lemma mask8_numeral: "(0xFF :: u16) = mask 8"
  by (simp add: mask_eq_exp_minus_1)

lemma length_bytes_be16:
  "length_bytes (push_bit 8 (ucast hi) OR ucast lo) = [hi, lo]" for hi lo :: u8
proof -
  have "(ucast (drop_bit 8 (push_bit 8 (ucast hi :: u16) OR ucast lo) AND mask 8) :: u8) = hi"
    by (rule bit_word_eqI) (auto simp: bit_simps dest: bit_imp_le_length)
  moreover have "(ucast ((push_bit 8 (ucast hi :: u16) OR ucast lo) AND mask 8) :: u8) = lo"
    by (rule bit_word_eqI) (auto simp: bit_simps)
  ultimately show ?thesis
    by (simp add: length_bytes_def mask8_numeral)
qed

lemma length_bytes_consts:
  "length_bytes 0xFFFF = [0xFF, 0xFF]" "length_bytes 0xFFF0 = [0xFF, 0xF0]"
  "length_bytes 0x7FFF = [0x7F, 0xFF]" "length_bytes 1000 = [3, 232]" "length_bytes 0 = [0, 0]"
  by (simp_all add: length_bytes_def)

lemma length_length_bytes [simp]: "length (length_bytes len) = 2"
  by (simp add: length_bytes_def)

lemma pad_byte_word: "ucast (0x41 + j mod 26 :: size_t) = pad_byte (unat j)"
proof -
  have "unat (j mod 26) = unat j mod 26"
    by (simp add: unat_mod)
  moreover have "unat j mod 26 < 26" by simp
  ultimately have "unat (0x41 + j mod 26) = 65 + unat j mod 26"
    by (simp add: unat_word_ariths)
  moreover have "ucast (0x41 + j mod 26) = (of_nat (unat (0x41 + j mod 26)) :: u8)"
    by simp
  ultimately show ?thesis
    by (simp only: pad_byte_def)
qed

subsection \<open>Reads and the two inner loops\<close>

lemma Data_at_Inr: "unat k < length Data \<Longrightarrow> Data_at Data k = Inr (Data ! unat k)"
  by (simp add: Data_at_def)

lemma copy_bytes_closed:
  assumes "length Data = unat Size"
  shows "copy_bytes Data Size bound j s =
           Inr \<lparr>dataOffset = dataOffset s + of_nat (min (unat bound - unat j) (unat Size - unat (dataOffset s))),
                iptcProfile = iptcProfile s @
                  take (min (unat bound - unat j) (unat Size - unat (dataOffset s)))
                       (drop (unat (dataOffset s)) Data)\<rparr>"
  using assms
proof (induction Data Size bound j s rule: copy_bytes.induct)
  case (1 Data Size bound j s)
  show ?case
  proof (cases "j < bound \<and> dataOffset s < Size")
    case False
    then have "min (unat bound - unat j) (unat Size - unat (dataOffset s)) = 0"
      by (auto simp: word_less_nat_alt)
    with False show ?thesis
      by (subst copy_bytes.simps) auto
  next
    case True
    then have jb: "unat j < unat bound" and os: "unat (dataOffset s) < unat Size"
      by (simp_all add: word_less_nat_alt)
    have sj: "unat (j + 1) = Suc (unat j)" and so: "unat (dataOffset s + 1) = Suc (unat (dataOffset s))"
      using True unat_Suc_less [of j bound] unat_Suc_less [of "dataOffset s" Size] by simp_all
    have rd: "Data_at Data (dataOffset s) = Inr (Data ! unat (dataOffset s))"
      using os "1.prems" by (simp add: Data_at_Inr)
    define k where "k = min (unat bound - unat (j + 1)) (unat Size - unat (dataOffset s + 1))"
    have k: "min (unat bound - unat j) (unat Size - unat (dataOffset s)) = Suc k"
      using jb os sj so by (simp add: k_def)
    have dr: "drop (unat (dataOffset s)) Data = Data ! unat (dataOffset s) # drop (Suc (unat (dataOffset s))) Data"
      using os "1.prems" by (simp add: Cons_nth_drop_Suc)
    have IH: "copy_bytes Data Size bound (j + 1)
               \<lparr>dataOffset = dataOffset s + 1, iptcProfile = iptcProfile s @ [Data ! unat (dataOffset s)]\<rparr>
             = Inr \<lparr>dataOffset = dataOffset s + 1 + of_nat k,
                    iptcProfile = (iptcProfile s @ [Data ! unat (dataOffset s)]) @
                       take k (drop (Suc (unat (dataOffset s))) Data)\<rparr>"
      using "1.IH" [OF True rd "1.prems"] by (simp add: k_def so)
    show ?thesis
      by (subst copy_bytes.simps) (simp add: True rd IH k dr)
  qed
qed

lemma pad_pattern_closed:
  "pad_pattern len j out = out @ map pad_byte [unat j..<unat len]"
proof (induction len j out rule: pad_pattern.induct)
  case (1 len j out)
  show ?case
  proof (cases "j < len")
    case False
    then show ?thesis
      by (subst pad_pattern.simps) (simp add: word_less_nat_alt)
  next
    case True
    then have "unat j < unat len" "unat (j + 1) = Suc (unat j)"
      by (simp_all add: word_less_nat_alt unat_Suc_less)
    then show ?thesis
      using "1.IH" [OF True] True
      by (subst pad_pattern.simps) (simp add: upt_conv_Cons pad_byte_word)
  qed
qed

lemma copy_bytes_from_0:
  fixes len :: u16
  assumes L: "length Data = unat Size" and le: "unat off \<le> unat Size"
  shows "\<exists>s1. copy_bytes Data Size (min (ucast len) (Size - off)) 0 \<lparr>dataOffset = off, iptcProfile = out\<rparr> = Inr s1
           \<and> unat (dataOffset s1) = unat off + min (unat len) (unat Size - unat off)
           \<and> iptcProfile s1 = out @ take (min (unat len) (unat Size - unat off)) (drop (unat off) Data)"
    (is "\<exists>s1. ?c = Inr s1 \<and> _")
proof -
  define a where "a = min (unat len) (unat Size - unat off)"
  have sub: "unat (Size - off) = unat Size - unat off"
    using le by (simp add: unat_sub word_le_nat_alt)
  have ua: "unat (min (ucast len) (Size - off)) = a"
    by (simp add: unat_min_word unat_ucast_16_64 sub a_def)
  have "unat off + a \<le> unat Size" using le by (simp add: a_def)
  moreover have "unat Size < 2 ^ 64" using unsigned_less [of Size, where 'a = nat] by simp
  ultimately have "unat off + a < 2 ^ 64" by linarith
  then have ad: "unat (off + of_nat a) = unat off + a" by (rule unat_add_of_nat)
  have "?c = Inr \<lparr>dataOffset = off + of_nat a, iptcProfile = out @ take a (drop (unat off) Data)\<rparr>"
    using copy_bytes_closed [OF L, of "min (ucast len) (Size - off)" 0 "\<lparr>dataOffset = off, iptcProfile = out\<rparr>"]
    by (simp add: ua a_def)
  then show ?thesis
    using ad by (simp add: a_def)
qed

lemma copy_bytes_summary:
  assumes L: "length Data = unat Size"
  shows "\<exists>s' rest. copy_bytes Data Size bound 0 s = Inr s'
           \<and> iptcProfile s' = iptcProfile s @ rest
           \<and> rest = take (length rest) (drop (unat (dataOffset s)) Data)
           \<and> length rest \<le> unat bound
           \<and> unat (dataOffset s') = unat (dataOffset s) + length rest
           \<and> unat (dataOffset s') \<le> max (unat (dataOffset s)) (unat Size)"
proof -
  define k where "k = min (unat bound) (unat Size - unat (dataOffset s))"
  define rest where "rest = take k (drop (unat (dataOffset s)) Data)"
  have lr: "length rest = k" using L by (simp add: rest_def k_def)
  have bnd: "unat (dataOffset s) + k \<le> max (unat (dataOffset s)) (unat Size)"
    by (simp add: k_def)
  moreover have "unat (dataOffset s) < 2 ^ 64" "unat Size < 2 ^ 64"
    using unsigned_less [of "dataOffset s", where 'a = nat] unsigned_less [of Size, where 'a = nat]
    by simp_all
  ultimately have "unat (dataOffset s) + k < 2 ^ 64" by simp
  then have ad: "unat (dataOffset s + of_nat k) = unat (dataOffset s) + k"
    by (rule unat_add_of_nat)
  have "copy_bytes Data Size bound 0 s =
          Inr \<lparr>dataOffset = dataOffset s + of_nat k, iptcProfile = iptcProfile s @ rest\<rparr>"
    using copy_bytes_closed [OF L, of bound 0 s] by (simp add: k_def rest_def)
  moreover have "rest = take (length rest) (drop (unat (dataOffset s)) Data)" "length rest \<le> unat bound"
    using lr by (simp_all add: rest_def k_def)
  ultimately show ?thesis
    using ad lr bnd by auto
qed

subsection \<open>The steps of one record\<close>

lemma next_or_InrD:
  assumes "length Data = unat Size" and "next_or Data Size d off = Inr (b, off')"
  shows "(unat off < unat Size \<and> b = Data ! unat off \<and> off' = off + 1 \<and> unat off' = Suc (unat off))
       \<or> (unat Size \<le> unat off \<and> b = d \<and> off' = off)"
proof (cases "off < Size")
  case True
  then have "unat off < unat Size" "unat (off + 1) = Suc (unat off)"
    by (simp_all add: word_less_nat_alt unat_Suc_less)
  with assms True show ?thesis
    by (auto simp: next_or_def Data_at_def)
next
  case False
  with assms show ?thesis
    by (auto simp: next_or_def word_less_nat_alt)
qed

lemma next_or_total:
  assumes "length Data = unat Size"
  shows "\<exists>b off'. next_or Data Size d off = Inr (b, off')"
  using assms by (auto simp: next_or_def Data_at_def word_less_nat_alt)

lemma derive_length_InrD:
  assumes L: "length Data = unat Size" and R: "derive_length Data Size off = Inr (len0, off3)"
  shows "(unat off + 1 < unat Size
            \<and> len0 = push_bit 8 (ucast (Data ! unat off)) OR ucast (Data ! (unat off + 1))
            \<and> off3 = off + 2 \<and> unat off3 = unat off + 2)
       \<or> (unat off + 1 = unat Size \<and> len0 = ucast (Data ! unat off)
            \<and> off3 = off + 1 \<and> unat off3 = unat off + 1)
       \<or> (unat Size \<le> unat off \<and> len0 = 0 \<and> off3 = off)"
proof (cases "off + 1 < Size")
  case True
  with R have "unat off < length Data"
    by (auto simp: derive_length_def Data_at_def split: if_splits)
  with L have lt: "off < Size" by (simp add: word_less_nat_alt)
  then have s1: "unat (off + 1) = Suc (unat off)" by (rule unat_Suc_less)
  with True have lt2: "Suc (unat off) < unat Size" by (simp add: word_less_nat_alt)
  have "unat (off + 2) = unat off + 2"
    using lt2 by unat_arith
  with R True L s1 lt2 show ?thesis
    by (auto simp: derive_length_def Data_at_def split: if_splits)
next
  case False
  show ?thesis
  proof (cases "off < Size")
    case True
    then have s1: "unat (off + 1) = Suc (unat off)" and lt: "unat off < unat Size"
      by (simp_all add: unat_Suc_less word_less_nat_alt)
    with False have "unat off + 1 = unat Size" by (simp add: word_less_nat_alt)
    with R False True L s1 lt show ?thesis
      by (auto simp: derive_length_def Data_at_def split: if_splits)
  next
    case F2: False
    with R False show ?thesis
      by (auto simp: derive_length_def word_less_nat_alt)
  qed
qed

lemma derive_length_total:
  assumes L: "length Data = unat Size" and nw: "unat off + 1 < 2 ^ 64"
  shows "\<exists>len0 off3. derive_length Data Size off = Inr (len0, off3)"
proof -
  have s1: "unat (off + 1) = unat off + 1"
    using nw unat_add_lem [of off 1] by simp
  show ?thesis
    using L s1 by (auto simp: derive_length_def Data_at_def word_less_nat_alt)
qed

lemma override_length_Inr:
  assumes L: "length Data = unat Size"
  shows "override_length Data Size i len0 =
           Inr (if i = 0 \<and> 4 < Size then
                  (if Data ! 3 mod 4 = 0 then 0xFFFF
                   else if Data ! 3 mod 4 = 1 then 0xFFF0
                   else if Data ! 3 mod 4 = 2 then 0x7FFF
                   else len0)
                else len0)"
proof (cases "4 < Size")
  case True
  then have "3 < unat Size" by unat_arith
  with L show ?thesis
    by (simp add: override_length_def Data_at_def)
next
  case False
  then show ?thesis by (simp add: override_length_def)
qed

lemma override_first:
  assumes L: "length Data = unat Size" and S4: "4 < Size"
  shows "override_length Data Size 0 len0 =
           Inr (if Data ! 3 mod 4 = 0 then 0xFFFF
                else if Data ! 3 mod 4 = 1 then 0xFFF0
                else if Data ! 3 mod 4 = 2 then 0x7FFF
                else len0)"
  using S4 by (simp add: override_length_Inr [OF L])

lemma override_first_ge3:
  assumes L: "length Data = unat Size" and S4: "4 < Size"
    and ov: "override_length Data Size 0 (push_bit 8 (ucast (Data ! 3)) OR ucast (Data ! 4)) = Inr len"
  shows "3 \<le> unat len"
proof -
  have len: "len = (if Data ! 3 mod 4 = 0 then 0xFFFF
                    else if Data ! 3 mod 4 = 1 then 0xFFF0
                    else if Data ! 3 mod 4 = 2 then 0x7FFF
                    else push_bit 8 (ucast (Data ! 3)) OR ucast (Data ! 4))"
  proof -
    from ov have "Inr (if Data ! 3 mod 4 = 0 then 0xFFFF
                    else if Data ! 3 mod 4 = 1 then 0xFFF0
                    else if Data ! 3 mod 4 = 2 then 0x7FFF
                    else push_bit 8 (ucast (Data ! 3)) OR ucast (Data ! 4)) = (Inr len :: fault + u16)"
      unfolding override_first [OF L S4] .
    then show ?thesis by (simp only: sum.inject)
  qed
  consider "len = 0xFFFF" | "len = 0xFFF0" | "len = 0x7FFF"
    | "Data ! 3 mod 4 \<noteq> 0" "len = push_bit 8 (ucast (Data ! 3)) OR ucast (Data ! 4)"
    using len by metis
  then show ?thesis
  proof cases
    case 4
    from 4(1) have "Data ! 3 \<noteq> 0" by auto
    then have "1 \<le> unat (Data ! 3)" by (simp add: unat_gt_0 Suc_le_eq)
    moreover have "unat len = 256 * unat (Data ! 3) + unat (Data ! 4)"
      using len_bytes [of len] length_bytes_be16 [of "Data ! 3" "Data ! 4"]
      by (simp add: 4(2) length_bytes_def)
    ultimately show ?thesis by simp
  qed simp_all
qed

subsection \<open>One iteration of the main loop\<close>

lemma base_record_InrE:
  assumes L: "length Data = unat Size" and G: "dataOffset s < Size"
    and R: "base_record Data Size i s = Inr s'"
  obtains rc len0 len o2 o3 where
    "unat (dataOffset s) < o3" "o3 \<le> unat (dataOffset s) + 4" "o3 \<le> unat Size"
    "o2 = (if unat (dataOffset s) + 1 < unat Size then unat (dataOffset s) + 2 else unat (dataOffset s) + 1)"
    "o3 = (if o2 + 1 < unat Size then o2 + 2 else if o2 < unat Size then o2 + 1 else o2)"
    "len0 = (if o2 + 1 < unat Size then push_bit 8 (ucast (Data ! o2)) OR ucast (Data ! (o2 + 1))
             else if o2 < unat Size then ucast (Data ! o2) else 0)"
    "rc = (if unat (dataOffset s) + 1 < unat Size then Data ! (unat (dataOffset s) + 1) else 5)"
    "override_length Data Size i len0 = Inr len"
    "iptcProfile s' = iptcProfile s @ [IPTC_SENTINEL, Data ! unat (dataOffset s), rc] @ length_bytes len
        @ take (min (unat len) (unat Size - o3)) (drop o3 Data)
        @ map pad_byte [min (unat len) (unat Size - o3)..<unat len]"
    "unat (dataOffset s') = o3 + min (unat len) (unat Size - o3)"
proof -
  from R obtain ds off1 where n1: "next_or Data Size 2 (dataOffset s) = Inr (ds, off1)"
    by (cases "next_or Data Size 2 (dataOffset s)") (auto simp: base_record_def)
  from R n1 obtain rc off2 where n2: "next_or Data Size 5 off1 = Inr (rc, off2)"
    by (cases "next_or Data Size 5 off1") (auto simp: base_record_def)
  from R n1 n2 obtain len0 off3 where d: "derive_length Data Size off2 = Inr (len0, off3)"
    by (cases "derive_length Data Size off2") (auto simp: base_record_def)
  from R n1 n2 d obtain len where ov: "override_length Data Size i len0 = Inr len"
    by (cases "override_length Data Size i len0") (auto simp: base_record_def)
  define out where "out = iptcProfile s @ [IPTC_SENTINEL, ds, rc] @ length_bytes len"
  define a where "a = min (unat len) (unat Size - unat off3)"
  have o: "unat (dataOffset s) < unat Size" using G by (simp add: word_less_nat_alt)
  from next_or_InrD [OF L n1] o
  have ds: "ds = Data ! unat (dataOffset s)" and o1: "unat off1 = Suc (unat (dataOffset s))"
    by auto
  from next_or_InrD [OF L n2] o o1
  have rc: "rc = (if unat (dataOffset s) + 1 < unat Size then Data ! (unat (dataOffset s) + 1) else 5)"
    and o2: "unat (dataOffset s) < unat off2" "unat off2 \<le> unat (dataOffset s) + 2" "unat off2 \<le> unat Size"
    and o2': "unat off2 = (if unat (dataOffset s) + 1 < unat Size then unat (dataOffset s) + 2 else unat (dataOffset s) + 1)"
    by auto
  from derive_length_InrD [OF L d] o2
  have o3: "unat (dataOffset s) < unat off3" "unat off3 \<le> unat (dataOffset s) + 4" "unat off3 \<le> unat Size"
    and o3': "unat off3 = (if unat off2 + 1 < unat Size then unat off2 + 2 else if unat off2 < unat Size then unat off2 + 1 else unat off2)"
    and l0: "len0 = (if unat off2 + 1 < unat Size then push_bit 8 (ucast (Data ! unat off2)) OR ucast (Data ! (unat off2 + 1))
             else if unat off2 < unat Size then ucast (Data ! unat off2) else 0)"
    by auto
  from copy_bytes_from_0 [OF L o3(3), of len out]
  obtain s1 where cp: "copy_bytes Data Size (min (ucast len) (Size - off3)) 0 \<lparr>dataOffset = off3, iptcProfile = out\<rparr> = Inr s1"
    and s1o: "unat (dataOffset s1) = unat off3 + a"
    and s1p: "iptcProfile s1 = out @ take a (drop (unat off3) Data)"
    by (auto simp: a_def)
  have sub: "unat (Size - off3) = unat Size - unat off3"
    using o3(3) by (simp add: unat_sub word_le_nat_alt)
  have lt: "min (ucast len) (Size - off3) < ucast len \<longleftrightarrow> a < unat len"
    by (simp add: word_less_nat_alt unat_min_word unat_ucast_16_64 sub a_def)
  have ua: "unat (min (ucast len) (Size - off3)) = a"
    by (simp add: unat_min_word unat_ucast_16_64 sub a_def)
  have s': "s' = (if a < unat len
                  then s1\<lparr>iptcProfile := iptcProfile s1 @ map pad_byte [a..<unat len]\<rparr>
                  else s1)"
    using R n1 n2 d ov cp
    by (auto simp: base_record_def out_def length_bytes_def lt pad_pattern_closed ua unat_ucast_16_64)
  have "iptcProfile s' = iptcProfile s1 @ map pad_byte [a..<unat len]"
    by (simp add: s')
  then have p: "iptcProfile s' = iptcProfile s @ [IPTC_SENTINEL, Data ! unat (dataOffset s), rc] @ length_bytes len
        @ take a (drop (unat off3) Data) @ map pad_byte [a..<unat len]"
    by (simp add: s1p out_def ds)
  have q: "unat (dataOffset s') = unat off3 + a"
    by (simp add: s' s1o)
  show thesis
    using that [OF o3 o2' o3' l0 rc ov] p q unfolding a_def by blast
qed

lemma base_record_total:
  assumes L: "length Data = unat Size" and nw: "unat (dataOffset s) + 3 < 2 ^ 64"
  shows "\<exists>s'. base_record Data Size i s = Inr s'"
proof -
  from next_or_total [OF L] obtain ds off1 where n1: "next_or Data Size 2 (dataOffset s) = Inr (ds, off1)"
    by blast
  from next_or_total [OF L] obtain rc off2 where n2: "next_or Data Size 5 off1 = Inr (rc, off2)"
    by blast
  from next_or_InrD [OF L n1] have "unat off1 \<le> unat (dataOffset s) + 1" by auto
  with next_or_InrD [OF L n2] have o2: "unat off2 \<le> unat (dataOffset s) + 2" by auto
  with nw have "unat off2 + 1 < 2 ^ 64" by linarith
  from derive_length_total [OF L this] obtain len0 off3 where
    d: "derive_length Data Size off2 = Inr (len0, off3)" by blast
  obtain len where ov: "override_length Data Size i len0 = Inr len"
    by (simp add: override_length_Inr [OF L])
  show ?thesis
    using n1 n2 d ov copy_bytes_closed [OF L]
    by (simp add: base_record_def Let_def)
qed

lemma base_record_summary:
  assumes L: "length Data = unat Size" and G: "dataOffset s < Size"
    and R: "base_record Data Size i s = Inr s'"
  shows "\<exists>chunk. iptcProfile s' = iptcProfile s @ chunk
           \<and> 5 \<le> length chunk \<and> length chunk \<le> 65540
           \<and> unat (dataOffset s) < unat (dataOffset s')
           \<and> unat (dataOffset s') \<le> unat Size
           \<and> unat (dataOffset s') \<le> unat (dataOffset s) + 65539
           \<and> length chunk + unat (dataOffset s)
                 \<le> unat (dataOffset s') + 4
                    + (if unat (dataOffset s') = unat Size then 65535 else 0)"
proof (rule base_record_InrE [OF L G R], goal_cases)
  case (1 rc len0 len o2 o3)
  note o3 = 1(1,2,3) and p = 1(9) and q = 1(10)
  define chunk where "chunk = [IPTC_SENTINEL, Data ! unat (dataOffset s), rc] @ length_bytes len
        @ take (min (unat len) (unat Size - o3)) (drop o3 Data)
        @ map pad_byte [min (unat len) (unat Size - o3)..<unat len]"
  have len: "unat len \<le> 65535" by (rule unat_len16)
  have lc: "length chunk = 5 + unat len"
    using L o3 by (simp add: chunk_def min_def)
  have "iptcProfile s' = iptcProfile s @ chunk" by (simp add: p chunk_def)
  moreover have "5 \<le> length chunk" "length chunk \<le> 65540" using lc len by simp_all
  moreover have "unat (dataOffset s) < unat (dataOffset s')" "unat (dataOffset s') \<le> unat Size"
     "unat (dataOffset s') \<le> unat (dataOffset s) + 65539"
    using o3 q len by simp_all
  moreover have "length chunk + unat (dataOffset s)
                 \<le> unat (dataOffset s') + 4 + (if unat (dataOffset s') = unat Size then 65535 else 0)"
    using o3 q len lc by (simp add: min_def split: if_splits)
  ultimately show ?case by blast
qed

lemma main_loop_step:
  assumes "i < n" and "dataOffset s < Size" and "base_record Data Size i s = Inr s'"
  shows "main_loop Data Size n i s = main_loop Data Size n (i + 1) s'"
  using assms by (subst main_loop.simps) simp

lemma base_record_example:
  "base_record [0, 7, 8, 9] 4 0 \<lparr>dataOffset = 1, iptcProfile = []\<rparr>
     = Inr \<lparr>dataOffset = 4, iptcProfile = [0x1C, 7, 8, 0, 9, 65, 66, 67, 68, 69, 70, 71, 72, 73]\<rparr>"
  by code_simp

lemma base_record_fallback_example:
  "base_record [0, 7] 2 0 \<lparr>dataOffset = 1, iptcProfile = []\<rparr>
     = Inr \<lparr>dataOffset = 2, iptcProfile = [0x1C, 7, 5, 0, 0]\<rparr>"
  by code_simp

subsection \<open>The main loop and the injections\<close>

lemma main_loop_summary:
  assumes L: "length Data = unat Size"
    and B: "unat (dataOffset s) + 65539 * (unat n - unat i) + 3 < 2 ^ 64"
  shows "\<exists>i' s' rest. main_loop Data Size n i s = Inr (i', s')
           \<and> unat i \<le> unat i' \<and> unat i' \<le> max (unat i) (unat n)
           \<and> unat (dataOffset s) \<le> unat (dataOffset s')
           \<and> unat (dataOffset s') \<le> max (unat (dataOffset s)) (unat Size)
           \<and> iptcProfile s' = iptcProfile s @ rest
           \<and> length rest \<le> 65540 * (unat n - unat i)
           \<and> length rest + unat (dataOffset s)
                 \<le> unat (dataOffset s') + 4 * (unat n - unat i)
                    + (if unat (dataOffset s) < unat Size then 65535 else 0)"
  using assms
proof (induction Data Size n i s rule: main_loop.induct)
  case (1 Data Size n i s)
  note L = "1.prems"(1) and B = "1.prems"(2)
  show ?case
  proof (cases "i < n \<and> dataOffset s < Size")
    case False
    then have "main_loop Data Size n i s = Inr (i, s)"
      by (subst main_loop.simps) auto
    then show ?thesis by simp
  next
    case True
    then have G: "dataOffset s < Size" and lt: "unat i < unat n" and si: "unat (i + 1) = Suc (unat i)"
      and os: "unat (dataOffset s) < unat Size"
      using unat_Suc_less [of i n] by (simp_all add: word_less_nat_alt)
    from B have "unat (dataOffset s) + 3 < 2 ^ 64" by linarith
    from base_record_total [OF L this] obtain s1 where R: "base_record Data Size i s = Inr s1"
      by blast
    from base_record_summary [OF L G R] obtain chunk where
      c: "iptcProfile s1 = iptcProfile s @ chunk" "5 \<le> length chunk" "length chunk \<le> 65540"
        "unat (dataOffset s) < unat (dataOffset s1)" "unat (dataOffset s1) \<le> unat Size"
        "unat (dataOffset s1) \<le> unat (dataOffset s) + 65539"
        "length chunk + unat (dataOffset s)
                 \<le> unat (dataOffset s1) + 4 + (if unat (dataOffset s1) = unat Size then 65535 else 0)"
      by blast
    have nn: "unat n - unat i = Suc (unat n - unat (i + 1))"
      using lt si by simp
    have B1: "unat (dataOffset s1) + 65539 * (unat n - unat (i + 1)) + 3 < 2 ^ 64"
      using B c(6) nn by simp
    from "1.IH" [OF True R L B1] obtain i' s' rest where
      r: "main_loop Data Size n (i + 1) s1 = Inr (i', s')"
        "unat (i + 1) \<le> unat i'" "unat i' \<le> max (unat (i + 1)) (unat n)"
        "unat (dataOffset s1) \<le> unat (dataOffset s')"
        "unat (dataOffset s') \<le> max (unat (dataOffset s1)) (unat Size)"
        "iptcProfile s' = iptcProfile s1 @ rest"
        "length rest \<le> 65540 * (unat n - unat (i + 1))"
        "length rest + unat (dataOffset s1)
                 \<le> unat (dataOffset s') + 4 * (unat n - unat (i + 1))
                    + (if unat (dataOffset s1) < unat Size then 65535 else 0)"
      by blast
    have m: "main_loop Data Size n i s = Inr (i', s')"
      using True R r(1) by (subst main_loop.simps) simp
    have "iptcProfile s' = iptcProfile s @ (chunk @ rest)"
      using c(1) r(6) by simp
    moreover have "length (chunk @ rest) \<le> 65540 * (unat n - unat i)"
      using c(3) r(7) nn by simp
    moreover have "length (chunk @ rest) + unat (dataOffset s)
                 \<le> unat (dataOffset s') + 4 * (unat n - unat i)
                    + (if unat (dataOffset s) < unat Size then 65535 else 0)"
      using c(7) r(8) nn os c(5) by (simp split: if_splits)
    moreover have "unat i \<le> unat i'" "unat i' \<le> max (unat i) (unat n)"
      "unat (dataOffset s) \<le> unat (dataOffset s')"
      "unat (dataOffset s') \<le> max (unat (dataOffset s)) (unat Size)"
      using r(2,3,4,5) si lt c(4,5) by simp_all
    ultimately show ?thesis using m by blast
  qed
qed

lemma numRecords_Inr:
  assumes L: "length Data = unat Size"
  shows "\<exists>n. numRecords Data Size = Inr n \<and> 1 \<le> unat n \<and> unat n \<le> 10"
proof (cases "0 < Size")
  case False
  then show ?thesis by (simp add: numRecords_def)
next
  case True
  then have "0 < unat Size" by (simp add: word_less_nat_alt)
  with L have rd: "Data_at Data 0 = Inr (Data ! 0)" by (simp add: Data_at_def)
  have m: "unat (Data ! 0 mod 10) < 10"
    by (simp add: unat_mod)
  have "unat (ucast (Data ! 0 mod 10) :: size_t) = unat (Data ! 0 mod 10)"
    using m by (simp add: unsigned_ucast_eq take_bit_nat_eq_self)
  with m have "unat (ucast (Data ! 0 mod 10) + 1 :: size_t) = unat (Data ! 0 mod 10) + 1"
    using unat_add_lem [of "ucast (Data ! 0 mod 10) :: size_t" 1] by simp
  with m True rd show ?thesis
    by (simp add: numRecords_def)
qed

lemma orphan_sentinel_summary:
  assumes L: "length Data = unat Size"
  shows "\<exists>s' rest. orphan_sentinel Data Size s = Inr s'
           \<and> iptcProfile s' = iptcProfile s @ rest
           \<and> length rest \<le> 1 + 10
           \<and> length rest + unat (dataOffset s) \<le> unat (dataOffset s') + 1
           \<and> unat (dataOffset s) \<le> unat (dataOffset s')
           \<and> unat (dataOffset s') \<le> max (unat (dataOffset s)) (unat Size)"
proof (cases "5 < Size \<and> Data ! 4 mod 4 = 0")
  case False
  have "5 < Size \<Longrightarrow> Data_at Data 4 = Inr (Data ! 4)"
    using L by (simp add: Data_at_def word_less_nat_alt)
  with False have "orphan_sentinel Data Size s = Inr s"
    by (auto simp: orphan_sentinel_def)
  then show ?thesis by simp
next
  case True
  then have "Data_at Data 4 = Inr (Data ! 4)"
    using L by (simp add: Data_at_def word_less_nat_alt)
  with True have "orphan_sentinel Data Size s = copy_bytes Data Size 10 0 (push_back IPTC_SENTINEL s)"
    by (simp add: orphan_sentinel_def)
  with copy_bytes_summary [OF L, of 10 "push_back IPTC_SENTINEL s"]
  show ?thesis
    by (auto simp: push_back_def)
qed

lemma overclaimed_length_summary:
  assumes L: "length Data = unat Size"
  shows "\<exists>s' rest. overclaimed_length Data Size s = Inr s'
           \<and> iptcProfile s' = iptcProfile s @ rest
           \<and> length rest \<le> 5 + 20
           \<and> length rest + unat (dataOffset s) \<le> unat (dataOffset s') + 5
           \<and> unat (dataOffset s) \<le> unat (dataOffset s')
           \<and> unat (dataOffset s') \<le> max (unat (dataOffset s)) (unat Size)"
proof (cases "6 < Size \<and> Data ! 5 mod 4 = 1")
  case False
  have "6 < Size \<Longrightarrow> Data_at Data 5 = Inr (Data ! 5)"
    using L by (simp add: Data_at_def word_less_nat_alt)
  with False have "overclaimed_length Data Size s = Inr s"
    by (auto simp: overclaimed_length_def)
  then show ?thesis by simp
next
  case True
  then have "Data_at Data 5 = Inr (Data ! 5)"
    using L by (simp add: Data_at_def word_less_nat_alt)
  with True have "overclaimed_length Data Size s = copy_bytes Data Size 20 0
      (push_back (ucast ((1000 :: u16) AND 0xFF))
        (push_back (ucast (drop_bit 8 (1000 :: u16) AND 0xFF))
          (push_back 5 (push_back 2 (push_back IPTC_SENTINEL s)))))"
    by (simp add: overclaimed_length_def)
  with copy_bytes_summary [OF L, of 20 "push_back (ucast ((1000 :: u16) AND 0xFF))
        (push_back (ucast (drop_bit 8 (1000 :: u16) AND 0xFF))
          (push_back 5 (push_back 2 (push_back IPTC_SENTINEL s))))"]
  show ?thesis
    by (auto simp: push_back_def)
qed

lemma zero_length_with_data_summary:
  assumes L: "length Data = unat Size"
  shows "\<exists>s' rest. zero_length_with_data Data Size s = Inr s'
           \<and> iptcProfile s' = iptcProfile s @ rest
           \<and> length rest \<le> 5 + 10
           \<and> length rest + unat (dataOffset s) \<le> unat (dataOffset s') + 5
           \<and> unat (dataOffset s) \<le> unat (dataOffset s')
           \<and> unat (dataOffset s') \<le> max (unat (dataOffset s)) (unat Size)"
proof (cases "7 < Size \<and> Data ! 6 mod 4 = 2")
  case False
  have "7 < Size \<Longrightarrow> Data_at Data 6 = Inr (Data ! 6)"
    using L by (simp add: Data_at_def word_less_nat_alt)
  with False have "zero_length_with_data Data Size s = Inr s"
    by (auto simp: zero_length_with_data_def)
  then show ?thesis by simp
next
  case True
  then have "Data_at Data 6 = Inr (Data ! 6)"
    using L by (simp add: Data_at_def word_less_nat_alt)
  with True have "zero_length_with_data Data Size s = copy_bytes Data Size 10 0
      (push_back 0 (push_back 0 (push_back 5 (push_back 2 (push_back IPTC_SENTINEL s)))))"
    by (simp add: zero_length_with_data_def)
  with copy_bytes_summary [OF L, of 10
      "push_back 0 (push_back 0 (push_back 5 (push_back 2 (push_back IPTC_SENTINEL s))))"]
  show ?thesis
    by (auto simp: push_back_def)
qed

lemma sentinel_flooding_summary:
  assumes L: "length Data = unat Size"
  shows "\<exists>s' rest. sentinel_flooding Data Size s = Inr s'
           \<and> iptcProfile s' = iptcProfile s @ rest
           \<and> length rest \<le> 5 + 10
           \<and> length rest + unat (dataOffset s) \<le> unat (dataOffset s') + 5
           \<and> unat (dataOffset s) \<le> unat (dataOffset s')
           \<and> unat (dataOffset s') \<le> max (unat (dataOffset s)) (unat Size)"
proof (cases "8 < Size \<and> Data ! 7 mod 4 = 3")
  case False
  have "8 < Size \<Longrightarrow> Data_at Data 7 = Inr (Data ! 7)"
    using L by (simp add: Data_at_def word_less_nat_alt)
  with False have "sentinel_flooding Data Size s = Inr s"
    by (auto simp: sentinel_flooding_def)
  then show ?thesis by simp
next
  case True
  then have "Data_at Data 7 = Inr (Data ! 7)"
    using L by (simp add: Data_at_def word_less_nat_alt)
  with True have "sentinel_flooding Data Size s = copy_bytes Data Size 10 0
      (push_back IPTC_SENTINEL (push_back IPTC_SENTINEL (push_back IPTC_SENTINEL
         (push_back IPTC_SENTINEL (push_back IPTC_SENTINEL s)))))"
    by (simp add: sentinel_flooding_def)
  with copy_bytes_summary [OF L, of 10
      "push_back IPTC_SENTINEL (push_back IPTC_SENTINEL (push_back IPTC_SENTINEL
         (push_back IPTC_SENTINEL (push_back IPTC_SENTINEL s))))"]
  show ?thesis
    by (auto simp: push_back_def)
qed

lemma sentinel_flooding_cases:
  assumes L: "length Data = unat Size" and S7: "7 < Size"
  shows "sentinel_flooding Data Size s =
           (if 8 < Size \<and> Data ! 7 mod 4 = 3
            then copy_bytes Data Size 10 0
                   (s\<lparr>iptcProfile := iptcProfile s @ replicate 5 IPTC_SENTINEL\<rparr>)
            else Inr s)"
proof -
  have "7 < unat Size" using S7 by (simp add: word_less_nat_alt)
  then have "Data_at Data 7 = Inr (Data ! 7)" using L by (simp add: Data_at_def)
  then show ?thesis
    by (simp add: sentinel_flooding_def push_back_def numeral_eq_Suc)
qed

lemma base_records_summary:
  assumes L: "length Data = unat Size"
  shows "\<exists>i s. base_records Data Size = Inr (i, s) \<and> unat i \<le> 10
           \<and> 1 \<le> unat (dataOffset s) \<and> unat (dataOffset s) \<le> max 1 (unat Size)
           \<and> length (iptcProfile s) \<le> 10 * (3 + 2 + 65535)
           \<and> length (iptcProfile s) + 1
                 \<le> unat (dataOffset s) + 40 + (if 1 < unat Size then 65535 else 0)"
proof -
  from numRecords_Inr [OF L] obtain n where
    n: "numRecords Data Size = Inr n" "1 \<le> unat n" "unat n \<le> 10" by blast
  have B: "unat (dataOffset \<lparr>dataOffset = 1, iptcProfile = []\<rparr>) + 65539 * (unat n - unat (0 :: size_t)) + 3 < 2 ^ 64"
    using n(3) by simp
  from main_loop_summary [OF L B] obtain i' s' rest where
    r: "main_loop Data Size n 0 \<lparr>dataOffset = 1, iptcProfile = []\<rparr> = Inr (i', s')"
       "unat i' \<le> max (unat (0 :: size_t)) (unat n)"
       "unat (dataOffset \<lparr>dataOffset = 1, iptcProfile = []\<rparr>) \<le> unat (dataOffset s')"
       "unat (dataOffset s') \<le> max (unat (dataOffset \<lparr>dataOffset = 1, iptcProfile = []\<rparr>)) (unat Size)"
       "iptcProfile s' = iptcProfile \<lparr>dataOffset = 1, iptcProfile = []\<rparr> @ rest"
       "length rest \<le> 65540 * (unat n - unat (0 :: size_t))"
       "length rest + unat (dataOffset \<lparr>dataOffset = 1, iptcProfile = []\<rparr>)
                 \<le> unat (dataOffset s') + 4 * (unat n - unat (0 :: size_t))
                    + (if unat (dataOffset \<lparr>dataOffset = 1, iptcProfile = []\<rparr>) < unat Size then 65535 else 0)"
    by blast
  have "base_records Data Size = Inr (i', s')"
    using n(1) r(1) by (simp add: base_records_def)
  moreover have "unat i' \<le> 10" using r(2) n(3) by simp
  moreover have "1 \<le> unat (dataOffset s')" "unat (dataOffset s') \<le> max 1 (unat Size)"
    using r(3,4) by simp_all
  moreover have "length (iptcProfile s') \<le> 10 * (3 + 2 + 65535)"
    using r(5,6) n(3) by simp
  moreover have "length (iptcProfile s') + 1
                    \<le> unat (dataOffset s') + 40 + (if 1 < unat Size then 65535 else 0)"
    using r(5,7) n(3) by (simp split: if_splits)
  ultimately show ?thesis by blast
qed

lemma CreateMalformedIPTCProfile_summary:
  assumes L: "length Data = unat Size"
  shows "\<exists>i s out. base_records Data Size = Inr (i, s) \<and> unat i \<le> 10
           \<and> CreateMalformedIPTCProfile Data Size = Inr out
           \<and> length out \<le> 10 * (3 + 2 + 65535) + (1 + 10) + (5 + 20) + (5 + 10) + (5 + 10)
           \<and> length out \<le> unat Size + 65590"
proof -
  from base_records_summary [OF L] obtain i s0 where
    b: "base_records Data Size = Inr (i, s0)" "unat i \<le> 10"
       "1 \<le> unat (dataOffset s0)" "unat (dataOffset s0) \<le> max 1 (unat Size)"
       "length (iptcProfile s0) \<le> 10 * (3 + 2 + 65535)"
       "length (iptcProfile s0) + 1
          \<le> unat (dataOffset s0) + 40 + (if 1 < unat Size then 65535 else 0)"
    by blast
  from orphan_sentinel_summary [OF L, of s0] obtain s1 r1 where
    g1: "orphan_sentinel Data Size s0 = Inr s1" "iptcProfile s1 = iptcProfile s0 @ r1"
        "length r1 \<le> 1 + 10" "length r1 + unat (dataOffset s0) \<le> unat (dataOffset s1) + 1"
        "unat (dataOffset s1) \<le> max (unat (dataOffset s0)) (unat Size)"
    by blast
  from overclaimed_length_summary [OF L, of s1] obtain s2 r2 where
    g2: "overclaimed_length Data Size s1 = Inr s2" "iptcProfile s2 = iptcProfile s1 @ r2"
        "length r2 \<le> 5 + 20" "length r2 + unat (dataOffset s1) \<le> unat (dataOffset s2) + 5"
        "unat (dataOffset s2) \<le> max (unat (dataOffset s1)) (unat Size)"
    by blast
  from zero_length_with_data_summary [OF L, of s2] obtain s3 r3 where
    g3: "zero_length_with_data Data Size s2 = Inr s3" "iptcProfile s3 = iptcProfile s2 @ r3"
        "length r3 \<le> 5 + 10" "length r3 + unat (dataOffset s2) \<le> unat (dataOffset s3) + 5"
        "unat (dataOffset s3) \<le> max (unat (dataOffset s2)) (unat Size)"
    by blast
  from sentinel_flooding_summary [OF L, of s3] obtain s4 r4 where
    g4: "sentinel_flooding Data Size s3 = Inr s4" "iptcProfile s4 = iptcProfile s3 @ r4"
        "length r4 \<le> 5 + 10" "length r4 + unat (dataOffset s3) \<le> unat (dataOffset s4) + 5"
        "unat (dataOffset s4) \<le> max (unat (dataOffset s3)) (unat Size)"
    by blast
  have c: "CreateMalformedIPTCProfile Data Size = Inr (iptcProfile s4)"
    using b(1) g1(1) g2(1) g3(1) g4(1) by (simp add: CreateMalformedIPTCProfile_def)
  have len: "length (iptcProfile s4) = length (iptcProfile s0) + length r1 + length r2 + length r3 + length r4"
    using g1(2) g2(2) g3(2) g4(2) by simp
  have "length (iptcProfile s4) \<le> 10 * (3 + 2 + 65535) + (1 + 10) + (5 + 20) + (5 + 10) + (5 + 10)"
    using len b(5) g1(3) g2(3) g3(3) g4(3) by linarith
  moreover have "length (iptcProfile s4) \<le> unat Size + 65590"
  proof -
    have "unat (dataOffset s4) \<le> max 1 (unat Size)"
      using b(4) g1(5) g2(5) g3(5) g4(5) by simp
    then show ?thesis
      using len b(6) g1(4) g2(4) g3(4) g4(4) by (simp split: if_splits)
  qed
  ultimately show ?thesis using b(1,2) c by blast
qed

lemma injections_summary:
  assumes L: "length Data = unat Size" and b: "base_records Data Size = Inr (i, s0)"
  shows "\<exists>rest. CreateMalformedIPTCProfile Data Size = Inr (iptcProfile s0 @ rest)"
proof -
  from orphan_sentinel_summary [OF L, of s0] obtain s1 r1 where
    g1: "orphan_sentinel Data Size s0 = Inr s1" "iptcProfile s1 = iptcProfile s0 @ r1"
    by blast
  from overclaimed_length_summary [OF L, of s1] obtain s2 r2 where
    g2: "overclaimed_length Data Size s1 = Inr s2" "iptcProfile s2 = iptcProfile s1 @ r2"
    by blast
  from zero_length_with_data_summary [OF L, of s2] obtain s3 r3 where
    g3: "zero_length_with_data Data Size s2 = Inr s3" "iptcProfile s3 = iptcProfile s2 @ r3"
    by blast
  from sentinel_flooding_summary [OF L, of s3] obtain s4 r4 where
    g4: "sentinel_flooding Data Size s3 = Inr s4" "iptcProfile s4 = iptcProfile s3 @ r4"
    by blast
  have "CreateMalformedIPTCProfile Data Size = Inr (iptcProfile s0 @ (r1 @ r2 @ r3 @ r4))"
    using b g1 g2 g3 g4 by (simp add: CreateMalformedIPTCProfile_def)
  then show ?thesis by blast
qed

subsection \<open>The first record\<close>

lemma first_iteration:
  assumes L: "length Data = unat Size" and S1: "1 < Size"
  shows "\<exists>s1 i s rest. base_record Data Size 0 \<lparr>dataOffset = 1, iptcProfile = []\<rparr> = Inr s1
           \<and> base_records Data Size = Inr (i, s)
           \<and> iptcProfile s = iptcProfile s1 @ rest
           \<and> unat (dataOffset s1) \<le> unat (dataOffset s)"
proof -
  let ?s0 = "\<lparr>dataOffset = 1, iptcProfile = []\<rparr> :: gen_state"
  from numRecords_Inr [OF L] obtain n where
    n: "numRecords Data Size = Inr n" "1 \<le> unat n" "unat n \<le> 10" by blast
  have n0: "0 < n" using n(2) by (simp add: word_less_nat_alt)
  have G: "dataOffset ?s0 < Size" using S1 by simp
  have "unat (dataOffset ?s0) + 3 < 2 ^ 64" by simp
  from base_record_total [OF L this] obtain s1 where R: "base_record Data Size 0 ?s0 = Inr s1"
    by blast
  from base_record_summary [OF L G R] have o1: "unat (dataOffset s1) \<le> 65540"
    by auto
  have B: "unat (dataOffset s1) + 65539 * (unat n - unat (1 :: size_t)) + 3 < 2 ^ 64"
    using o1 n(3) by simp
  from main_loop_summary [OF L B] obtain i' s' rest where
    r: "main_loop Data Size n 1 s1 = Inr (i', s')" "iptcProfile s' = iptcProfile s1 @ rest"
       "unat (dataOffset s1) \<le> unat (dataOffset s')"
    by blast
  have "main_loop Data Size n 0 ?s0 = main_loop Data Size n (0 + 1) s1"
    using n0 G R by (subst main_loop.simps) simp
  then have "base_records Data Size = Inr (i', s')"
    using n(1) r(1) by (simp add: base_records_def)
  with R r(2,3) show ?thesis by blast
qed

lemma first_record_layout:
  assumes L: "length Data = unat Size" and S4: "4 < Size"
    and R: "base_record Data Size 0 \<lparr>dataOffset = 1, iptcProfile = []\<rparr> = Inr s1"
  shows "\<exists>len. override_length Data Size 0 (push_bit 8 (ucast (Data ! 3)) OR ucast (Data ! 4)) = Inr len
          \<and> iptcProfile s1 = [IPTC_SENTINEL, Data ! 1, Data ! 2] @ length_bytes len
               @ take (min (unat len) (unat Size - 5)) (drop 5 Data)
               @ map pad_byte [min (unat len) (unat Size - 5)..<unat len]
          \<and> unat (dataOffset s1) = 5 + min (unat len) (unat Size - 5)"
proof -
  let ?s0 = "\<lparr>dataOffset = 1, iptcProfile = []\<rparr> :: gen_state"
  have n4: "4 < unat Size" using S4 by (simp add: word_less_nat_alt)
  then have G: "dataOffset ?s0 < Size" by (simp add: word_less_nat_alt)
  show ?thesis
  proof (rule base_record_InrE [OF L G R], goal_cases)
    case (1 rc len0 len o2 o3)
    from 1(4) n4 have o2: "o2 = 3" by simp
    with 1(5) n4 have o3: "o3 = 5" by simp
    from 1(6) o2 n4 have l0: "len0 = push_bit 8 (ucast (Data ! 3)) OR ucast (Data ! 4)" by simp
    from 1(7) n4 have rc: "rc = Data ! 2" by (simp add: numeral_2_eq_2)
    show ?case
      using 1(8,9,10) o3 l0 rc by simp
  qed
qed

lemma first_record_output:
  assumes L: "length Data = unat Size" and S4: "4 < Size"
  shows "\<exists>len rest. override_length Data Size 0 (push_bit 8 (ucast (Data ! 3)) OR ucast (Data ! 4)) = Inr len
          \<and> CreateMalformedIPTCProfile Data Size =
               Inr ([IPTC_SENTINEL, Data ! 1, Data ! 2] @ length_bytes len
                    @ take (min (unat len) (unat Size - 5)) (drop 5 Data)
                    @ map pad_byte [min (unat len) (unat Size - 5)..<unat len] @ rest)"
proof -
  have n4: "4 < unat Size" using S4 by (simp add: word_less_nat_alt)
  then have S1: "1 < Size" by (simp add: word_less_nat_alt)
  from first_iteration [OF L S1] obtain s1 i s rest where
    f: "base_record Data Size 0 \<lparr>dataOffset = 1, iptcProfile = []\<rparr> = Inr s1"
       "base_records Data Size = Inr (i, s)" "iptcProfile s = iptcProfile s1 @ rest"
    by blast
  from injections_summary [OF L f(2)] obtain rest' where
    c: "CreateMalformedIPTCProfile Data Size = Inr (iptcProfile s @ rest')" by blast
  from first_record_layout [OF L S4 f(1)] obtain len where
    ov: "override_length Data Size 0 (push_bit 8 (ucast (Data ! 3)) OR ucast (Data ! 4)) = Inr len"
    and p: "iptcProfile s1 = [IPTC_SENTINEL, Data ! 1, Data ! 2] @ length_bytes len
               @ take (min (unat len) (unat Size - 5)) (drop 5 Data)
               @ map pad_byte [min (unat len) (unat Size - 5)..<unat len]"
    by blast
  have "CreateMalformedIPTCProfile Data Size =
               Inr ([IPTC_SENTINEL, Data ! 1, Data ! 2] @ length_bytes len
                    @ take (min (unat len) (unat Size - 5)) (drop 5 Data)
                    @ map pad_byte [min (unat len) (unat Size - 5)..<unat len] @ (rest @ rest'))"
    by (simp add: c f(3) p)
  with ov show ?thesis by blast
qed

lemma first_padding_byte:
  assumes L: "length Data = unat Size" and S5: "5 < Size"
    and ov: "override_length Data Size 0 (push_bit 8 (ucast (Data ! 3)) OR ucast (Data ! 4)) = Inr len"
    and short: "unat Size - 5 < unat len"
  shows "\<not> isl (CreateMalformedIPTCProfile Data Size)
       \<and> projr (CreateMalformedIPTCProfile Data Size) ! (unat Size - 1) = Data ! (unat Size - 1)
       \<and> projr (CreateMalformedIPTCProfile Data Size) ! unat Size = pad_byte (unat Size - 5)"
proof -
  have n5: "5 < unat Size" using S5 by (simp add: word_less_nat_alt)
  then have S4: "4 < Size" by (simp add: word_less_nat_alt)
  define a where "a = unat Size - 5"
  have a: "min (unat len) (unat Size - 5) = a" "unat Size = 5 + a" "0 < a" "a < unat len"
    using short n5 by (simp_all add: a_def)
  define H where "H = [IPTC_SENTINEL, Data ! 1, Data ! 2] @ length_bytes len"
  define R where "R = take a (drop 5 Data)"
  define P where "P = map pad_byte [a..<unat len]"
  from first_record_output [OF L S4] ov obtain rest where
    c: "CreateMalformedIPTCProfile Data Size = Inr (H @ R @ P @ rest)"
    by (auto simp: a H_def R_def P_def)
  have lH: "length H = 5" by (simp add: H_def)
  have lR: "length R = a" using L a(2) by (simp add: R_def)
  have lP: "0 < length P" using a(4) by (simp add: P_def)
  have "(H @ R @ P @ rest) ! (5 + a) = P ! 0"
    using lH lR lP by (simp add: nth_append)
  also have "\<dots> = pad_byte a"
    using a(4) by (simp add: P_def)
  finally have p1: "projr (CreateMalformedIPTCProfile Data Size) ! (5 + a) = pad_byte a"
    by (simp add: c)
  have "(H @ R @ P @ rest) ! (5 + (a - 1)) = R ! (a - 1)"
    using lH lR a(3) by (simp add: nth_append)
  also have "\<dots> = Data ! (5 + (a - 1))"
    using a(3) L a(2) by (simp add: R_def)
  finally have p2: "projr (CreateMalformedIPTCProfile Data Size) ! (5 + (a - 1)) = Data ! (5 + (a - 1))"
    by (simp add: c)
  have e: "5 + a = unat Size" "5 + (a - 1) = unat Size - 1"
    using n5 by (simp_all add: a_def)
  have i: "\<not> isl (CreateMalformedIPTCProfile Data Size)"
    by (simp add: c)
  show ?thesis
    using p1 p2 i unfolding e by (simp add: a_def)
qed

subsection \<open>The output built so far is only ever extended\<close>

lemma prepend_simps [simp]:
  "dataOffset (prepend p s) = dataOffset s" "iptcProfile (prepend p s) = p @ iptcProfile s"
  by (simp_all add: prepend_def)

lemma prepend_push_back: "push_back x (prepend p s) = prepend p (push_back x s)"
  by (simp add: prepend_def push_back_def)

lemma copy_bytes_prepend:
  assumes L: "length Data = unat Size"
  shows "copy_bytes Data Size bound j (prepend p s) = map_sum id (prepend p) (copy_bytes Data Size bound j s)"
  by (simp add: copy_bytes_closed [OF L] prepend_def)

lemma base_record_prepend:
  assumes L: "length Data = unat Size"
  shows "base_record Data Size i (prepend p s) = map_sum id (prepend p) (base_record Data Size i s)"
  by (simp add: base_record_def copy_bytes_closed [OF L] pad_pattern_closed prepend_def Let_def
      split: sum.splits prod.splits)

lemma main_loop_prepend:
  assumes L: "length Data = unat Size"
  shows "main_loop Data Size n i (prepend p s)
           = map_sum id (map_prod id (prepend p)) (main_loop Data Size n i s)"
  using L
proof (induction Data Size n i s rule: main_loop.induct)
  case (1 Data Size n i s)
  show ?case
  proof (cases "i < n \<and> dataOffset s < Size")
    case False
    then show ?thesis
      by (subst (1 2) main_loop.simps) auto
  next
    case True
    show ?thesis
    proof (cases "base_record Data Size i s")
      case (Inl e)
      with True show ?thesis
        by (subst (1 2) main_loop.simps) (simp add: base_record_prepend [OF "1.prems"])
    next
      case (Inr s')
      with True "1.IH" [OF True Inr "1.prems"] show ?thesis
        by (subst (1 2) main_loop.simps) (simp add: base_record_prepend [OF "1.prems"] id_def)
    qed
  qed
qed

lemma orphan_sentinel_prepend:
  assumes L: "length Data = unat Size"
  shows "orphan_sentinel Data Size (prepend p s) = map_sum id (prepend p) (orphan_sentinel Data Size s)"
  by (simp add: orphan_sentinel_def prepend_push_back copy_bytes_prepend [OF L] split: sum.splits)

lemma overclaimed_length_prepend:
  assumes L: "length Data = unat Size"
  shows "overclaimed_length Data Size (prepend p s) = map_sum id (prepend p) (overclaimed_length Data Size s)"
  by (simp add: overclaimed_length_def prepend_push_back copy_bytes_prepend [OF L] split: sum.splits)

lemma zero_length_with_data_prepend:
  assumes L: "length Data = unat Size"
  shows "zero_length_with_data Data Size (prepend p s) = map_sum id (prepend p) (zero_length_with_data Data Size s)"
  by (simp add: zero_length_with_data_def prepend_push_back copy_bytes_prepend [OF L] split: sum.splits)

lemma sentinel_flooding_prepend:
  assumes L: "length Data = unat Size"
  shows "sentinel_flooding Data Size (prepend p s) = map_sum id (prepend p) (sentinel_flooding Data Size s)"
  by (simp add: sentinel_flooding_def prepend_push_back copy_bytes_prepend [OF L] split: sum.splits)

subsection \<open>Replacing one input byte\<close>

lemma Data_at_update7: "unat k \<noteq> 7 \<Longrightarrow> Data_at (Data[7 := b]) k = Data_at Data k"
  by (simp add: Data_at_def)

lemma next_or_update7:
  "unat off \<noteq> 7 \<Longrightarrow> next_or (Data[7 := b]) Size d off = next_or Data Size d off"
  by (simp add: next_or_def Data_at_update7)

lemma derive_length_update7:
  "unat off \<noteq> 7 \<Longrightarrow> unat (off + 1) \<noteq> 7 \<Longrightarrow>
     derive_length (Data[7 := b]) Size off = derive_length Data Size off"
  by (simp add: derive_length_def Data_at_update7 cong: sum.case_cong)

lemma override_length_update7:
  "override_length (Data[7 := b]) Size i len = override_length Data Size i len"
  by (simp add: override_length_def Data_at_update7)

lemma copy_bytes_update7:
  assumes L: "length Data = unat Size" and ge: "8 \<le> unat (dataOffset s)"
  shows "copy_bytes (Data[7 := b]) Size bound j s = copy_bytes Data Size bound j s"
proof -
  have L': "length (Data[7 := b]) = unat Size" using L by simp
  have "drop (unat (dataOffset s)) (Data[7 := b]) = drop (unat (dataOffset s)) Data"
    using ge by simp
  then show ?thesis
    by (simp add: copy_bytes_closed [OF L] copy_bytes_closed [OF L'])
qed

lemma base_record_update7:
  assumes L: "length Data = unat Size" and ge: "8 \<le> unat (dataOffset s)"
  shows "base_record (Data[7 := b]) Size i s = base_record Data Size i s"
proof -
  have n1: "next_or (Data[7 := b]) Size 2 (dataOffset s) = next_or Data Size 2 (dataOffset s)"
    using ge by (simp add: next_or_update7)
  show ?thesis
  proof (cases "next_or Data Size 2 (dataOffset s)")
    case (Inl e)
    then show ?thesis by (simp add: base_record_def n1)
  next
    case (Inr r1)
    obtain ds off1 where r1: "r1 = (ds, off1)" by (cases r1)
    from next_or_InrD [OF L Inr [unfolded r1]] ge have g1: "8 \<le> unat off1" by auto
    then have n2: "next_or (Data[7 := b]) Size 5 off1 = next_or Data Size 5 off1"
      by (simp add: next_or_update7)
    show ?thesis
    proof (cases "next_or Data Size 5 off1")
      case Inl2: (Inl e)
      then show ?thesis by (simp add: base_record_def n1 Inr r1 n2)
    next
      case Inr2: (Inr r2)
      obtain rc off2 where r2: "r2 = (rc, off2)" by (cases r2)
      from next_or_InrD [OF L Inr2 [unfolded r2]] g1 have g2: "8 \<le> unat off2" by auto
      then have d: "derive_length (Data[7 := b]) Size off2 = derive_length Data Size off2"
        using unat_plus1_neq7 [OF g2] by (simp add: derive_length_update7)
      show ?thesis
      proof (cases "derive_length Data Size off2")
        case Inl3: (Inl e)
        then show ?thesis by (simp add: base_record_def n1 Inr r1 n2 Inr2 r2 d)
      next
        case Inr3: (Inr r3)
        obtain len0 off3 where r3: "r3 = (len0, off3)" by (cases r3)
        from derive_length_InrD [OF L Inr3 [unfolded r3]] g2 have g3: "8 \<le> unat off3" by auto
        show ?thesis
          using g3
          by (simp add: base_record_def n1 Inr r1 n2 Inr2 r2 d Inr3 r3 override_length_update7
              copy_bytes_update7 [OF L] Let_def split: sum.splits)
      qed
    qed
  qed
qed

lemma main_loop_update7:
  assumes L: "length Data = unat Size" and ge: "8 \<le> unat (dataOffset s)"
  shows "main_loop (Data[7 := b]) Size n i s = main_loop Data Size n i s"
  using assms
proof (induction Data Size n i s rule: main_loop.induct)
  case (1 Data Size n i s)
  note L = "1.prems"(1) and ge = "1.prems"(2)
  show ?case
  proof (cases "i < n \<and> dataOffset s < Size")
    case False
    then show ?thesis
      by (subst (1 2) main_loop.simps) auto
  next
    case True
    show ?thesis
    proof (cases "base_record Data Size i s")
      case (Inl e)
      with True show ?thesis
        by (subst (1 2) main_loop.simps) (simp add: base_record_update7 [OF L ge])
    next
      case (Inr s')
      from True have G: "dataOffset s < Size" by simp
      from base_record_summary [OF L G Inr] ge have "8 \<le> unat (dataOffset s')" by auto
      from "1.IH" [OF True Inr L this] True Inr show ?thesis
        by (subst (1 2) main_loop.simps) (simp add: base_record_update7 [OF L ge])
    qed
  qed
qed

lemma orphan_sentinel_update7:
  assumes L: "length Data = unat Size" and ge: "8 \<le> unat (dataOffset s)"
  shows "orphan_sentinel (Data[7 := b]) Size s = orphan_sentinel Data Size s"
  using ge by (simp add: orphan_sentinel_def Data_at_update7 copy_bytes_update7 [OF L] push_back_def
      cong: sum.case_cong if_cong)

lemma overclaimed_length_update7:
  assumes L: "length Data = unat Size" and ge: "8 \<le> unat (dataOffset s)"
  shows "overclaimed_length (Data[7 := b]) Size s = overclaimed_length Data Size s"
  using ge by (simp add: overclaimed_length_def Data_at_update7 copy_bytes_update7 [OF L] push_back_def
      cong: sum.case_cong if_cong)

lemma zero_length_with_data_update7:
  assumes L: "length Data = unat Size" and ge: "8 \<le> unat (dataOffset s)"
  shows "zero_length_with_data (Data[7 := b]) Size s = zero_length_with_data Data Size s"
  using ge by (simp add: zero_length_with_data_def Data_at_update7 copy_bytes_update7 [OF L] push_back_def
      cong: sum.case_cong if_cong)

lemma numRecords_update7: "numRecords (Data[7 := b]) Size = numRecords Data Size"
  by (simp add: numRecords_def Data_at_update7)

lemma first_record_update7:
  assumes L: "length Data = unat Size" and S7: "7 < Size"
  shows "\<exists>s1. base_record Data Size 0 \<lparr>dataOffset = 1, iptcProfile = []\<rparr> = Inr s1
           \<and> base_record (Data[7 := b]) Size 0 \<lparr>dataOffset = 1, iptcProfile = []\<rparr>
                = Inr (s1\<lparr>iptcProfile := (iptcProfile s1)[7 := b]\<rparr>)
           \<and> 8 \<le> unat (dataOffset s1) \<and> unat (dataOffset s1) \<le> 65540
           \<and> 7 < length (iptcProfile s1) \<and> iptcProfile s1 ! 7 = Data ! 7"
proof -
  let ?s0 = "\<lparr>dataOffset = 1, iptcProfile = []\<rparr> :: gen_state"
  let ?D' = "Data[7 := b]"
  have L': "length ?D' = unat Size" using L by simp
  have n7: "7 < unat Size" using S7 by (simp add: word_less_nat_alt)
  then have S4: "4 < Size" by (simp add: word_less_nat_alt)
  have nw: "unat (dataOffset ?s0) + 3 < 2 ^ 64" by simp
  from base_record_total [OF L nw] obtain s1 where R: "base_record Data Size 0 ?s0 = Inr s1"
    by blast
  from base_record_total [OF L' nw] obtain s1' where R': "base_record ?D' Size 0 ?s0 = Inr s1'"
    by blast
  from first_record_layout [OF L S4 R] obtain len where
    ov: "override_length Data Size 0 (push_bit 8 (ucast (Data ! 3)) OR ucast (Data ! 4)) = Inr len"
    and p: "iptcProfile s1 = [IPTC_SENTINEL, Data ! 1, Data ! 2] @ length_bytes len
               @ take (min (unat len) (unat Size - 5)) (drop 5 Data)
               @ map pad_byte [min (unat len) (unat Size - 5)..<unat len]"
    and c: "unat (dataOffset s1) = 5 + min (unat len) (unat Size - 5)"
    by blast
  from first_record_layout [OF L' S4 R'] obtain len' where
    ov': "override_length ?D' Size 0 (push_bit 8 (ucast (?D' ! 3)) OR ucast (?D' ! 4)) = Inr len'"
    and p': "iptcProfile s1' = [IPTC_SENTINEL, ?D' ! 1, ?D' ! 2] @ length_bytes len'
               @ take (min (unat len') (unat Size - 5)) (drop 5 ?D')
               @ map pad_byte [min (unat len') (unat Size - 5)..<unat len']"
    and c': "unat (dataOffset s1') = 5 + min (unat len') (unat Size - 5)"
    by blast
  have len': "len' = len"
    using ov ov' by (simp add: override_length_update7)
  define a where "a = min (unat len) (unat Size - 5)"
  define H where "H = [IPTC_SENTINEL, Data ! 1, Data ! 2] @ length_bytes len"
  define Re where "Re = take a (drop 5 Data)"
  define P where "P = map pad_byte [a..<unat len]"
  have a3: "3 \<le> a"
    using override_first_ge3 [OF L S4 ov] n7 by (simp add: a_def)
  have lH: "length H = 5" by (simp add: H_def)
  have lR: "length Re = a" using L by (simp add: Re_def a_def)
  have pp: "iptcProfile s1 = H @ Re @ P"
    by (simp add: p H_def Re_def P_def a_def)
  have "take a (drop 5 ?D') = Re[2 := b]"
    by (simp add: Re_def drop_update_swap take_update_swap)
  then have pp': "iptcProfile s1' = H @ Re[2 := b] @ P"
    by (simp add: p' len' H_def P_def a_def)
  have upd: "(H @ Re @ P)[7 := b] = H @ Re[2 := b] @ P"
    using lH lR a3 by (simp add: list_update_append)
  have "(H @ Re @ P) ! 7 = Re ! 2"
    using lH lR a3 by (simp add: nth_append)
  also have "\<dots> = Data ! 7"
    using a3 L n7 by (simp add: Re_def)
  finally have n7': "iptcProfile s1 ! 7 = Data ! 7" by (simp add: pp)
  have "unat (dataOffset s1') = unat (dataOffset s1)" by (simp add: c c' len')
  then have "dataOffset s1' = dataOffset s1" by (simp add: word_unat_eq_iff)
  then have s1': "s1' = s1\<lparr>iptcProfile := (iptcProfile s1)[7 := b]\<rparr>"
    by (simp add: pp pp' upd)
  have "8 \<le> unat (dataOffset s1)" "unat (dataOffset s1) \<le> 65540"
    using c a3 unat_len16 [of len] by (simp_all add: a_def)
  moreover have "7 < length (iptcProfile s1)"
    using lH lR a3 by (simp add: pp)
  ultimately show ?thesis
    using R R' s1' n7' by blast
qed

lemma base_records_update7:
  assumes L: "length Data = unat Size" and S7: "7 < Size"
  shows "\<exists>i p t. base_records Data Size = Inr (i, prepend p t)
           \<and> base_records (Data[7 := b]) Size = Inr (i, prepend (p[7 := b]) t)
           \<and> 7 < length p \<and> p ! 7 = Data ! 7 \<and> 8 \<le> unat (dataOffset t)"
proof -
  let ?s0 = "\<lparr>dataOffset = 1, iptcProfile = []\<rparr> :: gen_state"
  let ?D' = "Data[7 := b]"
  have L': "length ?D' = unat Size" using L by simp
  have n7: "7 < unat Size" using S7 by (simp add: word_less_nat_alt)
  then have G: "dataOffset ?s0 < Size" by (simp add: word_less_nat_alt)
  from numRecords_Inr [OF L] obtain n where
    n: "numRecords Data Size = Inr n" "1 \<le> unat n" "unat n \<le> 10" by blast
  have n0: "0 < n" using n(2) by (simp add: word_less_nat_alt)
  from first_record_update7 [OF L S7, of b] obtain s1 where
    R: "base_record Data Size 0 ?s0 = Inr s1"
    and R': "base_record ?D' Size 0 ?s0 = Inr (s1\<lparr>iptcProfile := (iptcProfile s1)[7 := b]\<rparr>)"
    and c: "8 \<le> unat (dataOffset s1)" "unat (dataOffset s1) \<le> 65540"
    and p7: "7 < length (iptcProfile s1)" "iptcProfile s1 ! 7 = Data ! 7"
    by blast
  define p where "p = iptcProfile s1"
  define t0 where "t0 = s1\<lparr>iptcProfile := []\<rparr>"
  have s1: "s1 = prepend p t0" by (simp add: p_def t0_def prepend_def)
  have s1': "s1\<lparr>iptcProfile := (iptcProfile s1)[7 := b]\<rparr> = prepend (p[7 := b]) t0"
    by (simp add: p_def t0_def prepend_def)
  have c0: "8 \<le> unat (dataOffset t0)" "unat (dataOffset t0) \<le> 65540"
    using c by (simp_all add: t0_def)
  have B: "unat (dataOffset t0) + 65539 * (unat n - unat (1 :: size_t)) + 3 < 2 ^ 64"
    using c0(2) n(3) by simp
  from main_loop_summary [OF L B] obtain i' t where
    r: "main_loop Data Size n 1 t0 = Inr (i', t)" "unat (dataOffset t0) \<le> unat (dataOffset t)"
    by blast
  have m: "main_loop Data Size n 0 ?s0 = Inr (i', prepend p t)"
    using main_loop_step [OF n0 G R] r(1)
    by (simp add: s1 main_loop_prepend [OF L])
  have "main_loop ?D' Size n 1 t0 = Inr (i', t)"
    using r(1) by (simp add: main_loop_update7 [OF L c0(1)])
  then have m': "main_loop ?D' Size n 0 ?s0 = Inr (i', prepend (p[7 := b]) t)"
    using main_loop_step [OF n0 G R']
    by (simp add: s1' main_loop_prepend [OF L'])
  have "base_records Data Size = Inr (i', prepend p t)"
    using n(1) m by (simp add: base_records_def)
  moreover have "base_records ?D' Size = Inr (i', prepend (p[7 := b]) t)"
    using n(1) m' by (simp add: base_records_def numRecords_update7)
  moreover have "8 \<le> unat (dataOffset t)" using c0(1) r(2) by simp
  ultimately show ?thesis
    using p7 unfolding p_def by blast
qed

lemma data7_general:
  assumes L: "length Data = unat Size" and S7: "7 < Size"
  shows "\<exists>i s g tail.
           base_records Data Size = Inr (i, s)
         \<and> base_records (Data[7 := b]) Size = Inr (i, s\<lparr>iptcProfile := (iptcProfile s)[7 := b]\<rparr>)
         \<and> 7 < length (iptcProfile s) \<and> iptcProfile s ! 7 = Data ! 7
         \<and> length tail \<le> 10
         \<and> CreateMalformedIPTCProfile Data Size =
             Inr (iptcProfile s @ g @
                  (if 8 < Size \<and> Data ! 7 mod 4 = 3 then replicate 5 IPTC_SENTINEL @ tail else []))
         \<and> CreateMalformedIPTCProfile (Data[7 := b]) Size =
             Inr ((iptcProfile s)[7 := b] @ g @
                  (if 8 < Size \<and> b mod 4 = 3 then replicate 5 IPTC_SENTINEL @ tail else []))"
proof -
  let ?D' = "Data[7 := b]"
  have L': "length ?D' = unat Size" using L by simp
  have n7: "7 < unat Size" using S7 by (simp add: word_less_nat_alt)
  from base_records_update7 [OF L S7, of b] obtain i p t where
    b: "base_records Data Size = Inr (i, prepend p t)"
    and b': "base_records ?D' Size = Inr (i, prepend (p[7 := b]) t)"
    and p7: "7 < length p" "p ! 7 = Data ! 7" and c: "8 \<le> unat (dataOffset t)"
    by blast
  from orphan_sentinel_summary [OF L, of t] obtain t1 r1 where
    g1: "orphan_sentinel Data Size t = Inr t1" "iptcProfile t1 = iptcProfile t @ r1"
        "unat (dataOffset t) \<le> unat (dataOffset t1)"
    by blast
  have c1: "8 \<le> unat (dataOffset t1)" using c g1(3) by simp
  from overclaimed_length_summary [OF L, of t1] obtain t2 r2 where
    g2: "overclaimed_length Data Size t1 = Inr t2" "iptcProfile t2 = iptcProfile t1 @ r2"
        "unat (dataOffset t1) \<le> unat (dataOffset t2)"
    by blast
  have c2: "8 \<le> unat (dataOffset t2)" using c1 g2(3) by simp
  from zero_length_with_data_summary [OF L, of t2] obtain t3 r3 where
    g3: "zero_length_with_data Data Size t2 = Inr t3" "iptcProfile t3 = iptcProfile t2 @ r3"
        "unat (dataOffset t2) \<le> unat (dataOffset t3)"
    by blast
  have c3: "8 \<le> unat (dataOffset t3)" using c2 g3(3) by simp
  define u where "u = t3\<lparr>iptcProfile := iptcProfile t3 @ replicate 5 IPTC_SENTINEL\<rparr>"
  have cu: "8 \<le> unat (dataOffset u)" using c3 by (simp add: u_def)
  from copy_bytes_summary [OF L, of 10 u] obtain t4 tail where
    g4: "copy_bytes Data Size 10 0 u = Inr t4" "iptcProfile t4 = iptcProfile u @ tail"
        "length tail \<le> 10"
    by auto
  have g4': "copy_bytes ?D' Size 10 0 u = Inr t4"
    using g4(1) by (simp add: copy_bytes_update7 [OF L cu])
  have D7: "?D' ! 7 = b" using L n7 by simp
  have f: "sentinel_flooding Data Size t3 = Inr (if 8 < Size \<and> Data ! 7 mod 4 = 3 then t4 else t3)"
    using g4(1) by (simp add: sentinel_flooding_cases [OF L S7] u_def)
  have f': "sentinel_flooding ?D' Size t3 = Inr (if 8 < Size \<and> b mod 4 = 3 then t4 else t3)"
    using g4' by (simp add: sentinel_flooding_cases [OF L' S7] u_def D7)
  define g where "g = r1 @ r2 @ r3"
  have q3: "iptcProfile t3 = iptcProfile t @ g"
    by (simp add: g1(2) g2(2) g3(2) g_def)
  have q4: "iptcProfile t4 = iptcProfile t @ g @ replicate 5 IPTC_SENTINEL @ tail"
    by (simp add: g4(2) u_def q3)
  have out: "CreateMalformedIPTCProfile Data Size =
             Inr ((p @ iptcProfile t) @ g @
                  (if 8 < Size \<and> Data ! 7 mod 4 = 3 then replicate 5 IPTC_SENTINEL @ tail else []))"
    using b g1(1) g2(1) g3(1) f q3 q4
    by (simp add: CreateMalformedIPTCProfile_def orphan_sentinel_prepend [OF L]
        overclaimed_length_prepend [OF L] zero_length_with_data_prepend [OF L]
        sentinel_flooding_prepend [OF L])
  have h1: "orphan_sentinel ?D' Size t = Inr t1"
    using g1(1) by (simp add: orphan_sentinel_update7 [OF L c])
  have h2: "overclaimed_length ?D' Size t1 = Inr t2"
    using g2(1) by (simp add: overclaimed_length_update7 [OF L c1])
  have h3: "zero_length_with_data ?D' Size t2 = Inr t3"
    using g3(1) by (simp add: zero_length_with_data_update7 [OF L c2])
  have out': "CreateMalformedIPTCProfile ?D' Size =
             Inr ((p[7 := b] @ iptcProfile t) @ g @
                  (if 8 < Size \<and> b mod 4 = 3 then replicate 5 IPTC_SENTINEL @ tail else []))"
    using b' h1 h2 h3 f' q3 q4
    by (simp add: CreateMalformedIPTCProfile_def orphan_sentinel_prepend [OF L']
        overclaimed_length_prepend [OF L'] zero_length_with_data_prepend [OF L']
        sentinel_flooding_prepend [OF L'])
  define s where "s = prepend p t"
  have ps: "iptcProfile s = p @ iptcProfile t" by (simp add: s_def)
  have us: "(iptcProfile s)[7 := b] = p[7 := b] @ iptcProfile t"
    using p7(1) by (simp add: ps list_update_append)
  have s': "s\<lparr>iptcProfile := (iptcProfile s)[7 := b]\<rparr> = prepend (p[7 := b]) t"
    unfolding us by (simp add: s_def prepend_def)
  have "7 < length (iptcProfile s)" "iptcProfile s ! 7 = Data ! 7"
    using p7 by (simp_all add: ps nth_append)
  with b b' out out' g4(3) show ?thesis
    unfolding s'[symmetric] us[symmetric] ps[symmetric] s_def[symmetric] by blast
qed

lemma base_records_index7:
  assumes L: "length Data = unat Size" and S7: "7 < Size"
  shows "\<not> isl (base_records Data Size)
       \<and> iptcProfile (snd (projr (base_records Data Size))) ! 7 = Data ! 7"
proof -
  from base_records_update7 [OF L S7, of 0] obtain i p t where
    "base_records Data Size = Inr (i, prepend p t)" "7 < length p" "p ! 7 = Data ! 7"
    by blast
  then show ?thesis by (simp add: nth_append)
qed

subsection \<open>The entry points\<close>








lemma extending_call: "extending (call c)"
  by (simp add: extending_def call_def)

lemma extending_block:
  assumes "\<forall>st \<in> set sts. extending st"
  shows "extending (block sts)"
  unfolding extending_def
proof (intro allI)
  fix lib tr
  from assms show "length tr \<le> length (snd (block sts lib tr))"
  proof (induction sts arbitrary: tr)
    case Nil
    then show ?case by simp
  next
    case (Cons st sts)
    from Cons.prems have st: "length tr \<le> length (snd (st lib tr))"
      by (simp add: extending_def)
    show ?case
    proof (cases "st lib tr")
      case (Pair r tr')
      show ?thesis
      proof (cases r)
        case None
        with Pair Cons.IH [of tr'] Cons.prems st show ?thesis by simp
      next
        case (Some e)
        with Pair st show ?thesis by simp
      qed
    qed
  qed
qed

lemma extending_try:
  assumes "extending st"
  shows "extending (try_catch_Magick st)"
  unfolding extending_def
proof (intro allI)
  fix lib tr
  from assms have "length tr \<le> length (snd (st lib tr))"
    by (simp add: extending_def)
  then show "length tr \<le> length (snd (try_catch_Magick st lib tr))"
    by (cases "st lib tr") (auto simp: try_catch_Magick_def split: option.splits exn.splits)
qed

lemma snd_catch_and_return: "snd (catch_and_return r) = snd r"
  by (cases r) (auto simp: catch_and_return_def split: option.splits exn.splits)

lemma extending_advanced_tests: "extending (advanced_tests Data profile)"
  by (simp add: advanced_tests_def extending_block extending_try extending_call)

lemma basic_tests_trace: "snd (basic_tests Data lib []) \<noteq> []"
proof -
  let ?rest = "block
      [call (Blob_ctor Data),
       call (Image_profile_set ''iptc'' Data),
       try_catch_Magick (block
         [call Blob_default_ctor,
          call (Image_write ''TIFF''),
          call Image_default_ctor,
          call Image_read,
          call (Image_profile_get ''iptc'')]),
       try_catch_Magick (block
         [call (Image_attribute ''IPTC:*''),
          call Image_fileName,
          call Image_format,
          call Image_size])]"
  have "extending ?rest"
    by (simp add: extending_block extending_try extending_call)
  then have "length [Call (Image_ctor 10 10 ''white'')]
               \<le> length (snd (?rest lib [Call (Image_ctor 10 10 ''white'')]))"
    unfolding extending_def by blast
  then have "snd (?rest lib [Call (Image_ctor 10 10 ''white'')]) \<noteq> []"
    by auto
  then show ?thesis
    by (auto simp: basic_tests_def call_def split: option.splits)
qed

lemma advanced_trace:
  assumes "\<not> (IsInvalidSize Size MIN_IPTC_SIZE \<or> MAX_IPTC_SIZE < Size)"
  shows "snd (LLVMFuzzerTestOneInput_advanced lib Data Size) \<noteq> []"
proof -
  have "length [Call (Image_ctor 10 10 ''white''), Generate_profile]
          \<le> length (snd (advanced_tests Data profile lib
                             [Call (Image_ctor 10 10 ''white''), Generate_profile]))"
    for profile
    using extending_advanced_tests unfolding extending_def by blast
  then have "snd (advanced_tests Data profile lib
                    [Call (Image_ctor 10 10 ''white''), Generate_profile]) \<noteq> []" for profile
    by (metis length_0_conv not_less_eq_eq le0 length_Cons)
  with assms show ?thesis
    by (auto simp: LLVMFuzzerTestOneInput_advanced_def call_def snd_catch_and_return
        split: option.splits sum.splits)
qed

lemma size_gate: "(IsInvalidSize Size MIN_IPTC_SIZE \<or> MAX_IPTC_SIZE < Size) = (Size < 8 \<or> 8192 < Size)"
proof -
  have "MAX_IPTC_SIZE < Size \<Longrightarrow> 8192 < Size"
    unfolding MAX_IPTC_SIZE_def by unat_arith
  then show ?thesis
    by (auto simp: IsInvalidSize_def MIN_IPTC_SIZE_def)
qed


section \<open>The claims\<close>

text \<open>C1. For every buffer \<^verbatim>\<open>Data\<close> of \<^verbatim>\<open>Size\<close> bytes, \<^verbatim>\<open>Size = 0\<close> included, the
  generator never reads \<^verbatim>\<open>Data\<close> at an index at or beyond \<^verbatim>\<open>Size\<close>: every read goes
  through \<open>Data_at\<close>, whose out-of-bounds branch is the only source of \<open>Inl OutOfBounds\<close>,
  and the generator returns \<open>Inr\<close>.\<close>

theorem CreateMalformedIPTCProfile_in_bounds:
  assumes "length Data = unat Size"
  shows "\<exists>out. CreateMalformedIPTCProfile Data Size = Inr out"
  using CreateMalformedIPTCProfile_summary [OF assms] by blast

theorem CreateMalformedIPTCProfile_in_bounds_witness:
  "length ([] :: u8 list) = unat (0 :: size_t)
   \<and> (\<exists>out. CreateMalformedIPTCProfile [] 0 = Inr out)
   \<and> length [0, 2, 5, 3, 1, 0x61, 0x62, 0x63 :: u8] = unat (8 :: size_t)
   \<and> (\<exists>out. CreateMalformedIPTCProfile [0, 2, 5, 3, 1, 0x61, 0x62, 0x63] 8 = Inr out)"
  using CreateMalformedIPTCProfile_in_bounds [of "[]" 0]
    CreateMalformedIPTCProfile_in_bounds [of "[0, 2, 5, 3, 1, 0x61, 0x62, 0x63]" 8]
  by simp

text \<open>C2. For every input of more than 4 bytes the output starts with the first base
  record, whose two length bytes (output indices 3 and 4) are fixed by \<^verbatim>\<open>Data[3] % 4\<close>:
  \<open>0xFF 0xFF\<close> for 0, \<open>0xFF 0xF0\<close> for 1, \<open>0x7F 0xFF\<close> for 2, and for 3 the bytes of the
  length derived at cursor 3, where two unread bytes remain, that is \<^verbatim>\<open>Data[3]\<close> and
  \<^verbatim>\<open>Data[4]\<close> themselves (big-endian).\<close>

theorem first_record_length_override:
  assumes "length Data = unat Size" and "4 < Size"
  shows "\<exists>out. CreateMalformedIPTCProfile Data Size = Inr out \<and> 5 \<le> length out
           \<and> take 3 out = [IPTC_SENTINEL, Data ! 1, Data ! 2]
           \<and> [out ! 3, out ! 4] =
                (if Data ! 3 mod 4 = 0 then length_bytes 0xFFFF
                 else if Data ! 3 mod 4 = 1 then length_bytes 0xFFF0
                 else if Data ! 3 mod 4 = 2 then length_bytes 0x7FFF
                 else length_bytes (push_bit 8 (ucast (Data ! 3)) OR ucast (Data ! 4)))
           \<and> length_bytes 0xFFFF = [0xFF, 0xFF]
           \<and> length_bytes 0xFFF0 = [0xFF, 0xF0]
           \<and> length_bytes 0x7FFF = [0x7F, 0xFF]
           \<and> length_bytes (push_bit 8 (ucast (Data ! 3)) OR ucast (Data ! 4)) = [Data ! 3, Data ! 4]
           \<and> derive_length Data Size 3 = Inr (push_bit 8 (ucast (Data ! 3)) OR ucast (Data ! 4), 5)"
proof -
  note L = assms(1) and S4 = assms(2)
  have n4: "4 < unat Size" using S4 by (simp add: word_less_nat_alt)
  then have S1: "1 < Size" by (simp add: word_less_nat_alt)
  from first_iteration [OF L S1] obtain s1 i s rest where
    f: "base_record Data Size 0 \<lparr>dataOffset = 1, iptcProfile = []\<rparr> = Inr s1"
       "base_records Data Size = Inr (i, s)" "iptcProfile s = iptcProfile s1 @ rest"
    by blast
  from injections_summary [OF L f(2)] obtain rest' where
    c: "CreateMalformedIPTCProfile Data Size = Inr (iptcProfile s @ rest')" by blast
  from first_record_layout [OF L S4 f(1)] obtain len tl where
    ov: "override_length Data Size 0 (push_bit 8 (ucast (Data ! 3)) OR ucast (Data ! 4)) = Inr len"
    and p: "iptcProfile s1 = [IPTC_SENTINEL, Data ! 1, Data ! 2] @ length_bytes len @ tl"
    by blast
  define out where "out = iptcProfile s @ rest'"
  have out: "out = [IPTC_SENTINEL, Data ! 1, Data ! 2, ucast (drop_bit 8 len AND 0xFF), ucast (len AND 0xFF)]
                   @ (tl @ rest @ rest')"
    by (simp add: out_def f(3) p length_bytes_def)
  have lb: "[out ! 3, out ! 4] = length_bytes len"
    by (simp add: out length_bytes_def)
  have len: "len = (if Data ! 3 mod 4 = 0 then 0xFFFF
                else if Data ! 3 mod 4 = 1 then 0xFFF0
                else if Data ! 3 mod 4 = 2 then 0x7FFF
                else push_bit 8 (ucast (Data ! 3)) OR ucast (Data ! 4))"
    using ov by (simp add: override_first [OF L S4])
  have d: "derive_length Data Size 3 = Inr (push_bit 8 (ucast (Data ! 3)) OR ucast (Data ! 4), 5)"
  proof -
    have "(3 :: size_t) + 1 < Size" using S4 by simp
    moreover have "Data_at Data 3 = Inr (Data ! 3)" "Data_at Data (3 + 1) = Inr (Data ! 4)"
      using n4 L by (simp_all add: Data_at_def)
    ultimately show ?thesis
      by (simp add: derive_length_def)
  qed
  have "CreateMalformedIPTCProfile Data Size = Inr out" by (simp add: c out_def)
  moreover have "5 \<le> length out" "take 3 out = [IPTC_SENTINEL, Data ! 1, Data ! 2]"
    by (simp_all add: out)
  moreover have "[out ! 3, out ! 4] =
                (if Data ! 3 mod 4 = 0 then length_bytes 0xFFFF
                 else if Data ! 3 mod 4 = 1 then length_bytes 0xFFF0
                 else if Data ! 3 mod 4 = 2 then length_bytes 0x7FFF
                 else length_bytes (push_bit 8 (ucast (Data ! 3)) OR ucast (Data ! 4)))"
    unfolding lb len by simp
  ultimately show ?thesis
    using d length_bytes_consts(1,2,3) length_bytes_be16 [of "Data ! 3" "Data ! 4"]
    by blast
qed

theorem first_record_length_override_witness:
  "length [0, 7, 8, 0, 9 :: u8] = unat (5 :: size_t) \<and> (4 :: size_t) < 5
   \<and> (\<exists>out. CreateMalformedIPTCProfile [0, 7, 8, 0, 9] 5 = Inr out \<and> [out ! 3, out ! 4] = [0xFF, 0xFF])
   \<and> (\<exists>out. CreateMalformedIPTCProfile [0, 7, 8, 5, 9] 5 = Inr out \<and> [out ! 3, out ! 4] = [0xFF, 0xF0])
   \<and> (\<exists>out. CreateMalformedIPTCProfile [0, 7, 8, 10, 9] 5 = Inr out \<and> [out ! 3, out ! 4] = [0x7F, 0xFF])
   \<and> (\<exists>out. CreateMalformedIPTCProfile [0, 7, 8, 3, 9] 5 = Inr out \<and> [out ! 3, out ! 4] = [3, 9])"
proof -
  have "\<exists>out. CreateMalformedIPTCProfile [0, 7, 8, 0, 9] 5 = Inr out \<and> [out ! 3, out ! 4] = [0xFF, 0xFF]"
    using first_record_length_override [of "[0, 7, 8, 0, 9]" 5] by force
  moreover
  have "\<exists>out. CreateMalformedIPTCProfile [0, 7, 8, 5, 9] 5 = Inr out \<and> [out ! 3, out ! 4] = [0xFF, 0xF0]"
    using first_record_length_override [of "[0, 7, 8, 5, 9]" 5] by force
  moreover
  have "\<exists>out. CreateMalformedIPTCProfile [0, 7, 8, 10, 9] 5 = Inr out \<and> [out ! 3, out ! 4] = [0x7F, 0xFF]"
    using first_record_length_override [of "[0, 7, 8, 10, 9]" 5] by force
  moreover
  have "\<exists>out. CreateMalformedIPTCProfile [0, 7, 8, 3, 9] 5 = Inr out \<and> [out ! 3, out ! 4] = [3, 9]"
    using first_record_length_override [of "[0, 7, 8, 3, 9]" 5] by force
  ultimately show ?thesis by simp
qed

text \<open>C3, as stated: for \<^verbatim>\<open>Size = 0\<close> the output is one default record
  \<open>0x1C, 2, 5, 0, 0\<close>. It is not: the cursor starts at 1, the loop guard
  \<^verbatim>\<open>dataOffset < Size\<close> fails before the first iteration.\<close>

theorem empty_input_default_record_counterexample:
  "CreateMalformedIPTCProfile [] 0 \<noteq> Inr [0x1C, 2, 5, 0, 0]"
  by (simp add: CreateMalformedIPTCProfile_def base_records_def numRecords_def
      main_loop.simps orphan_sentinel_def overclaimed_length_def zero_length_with_data_def
      sentinel_flooding_def)

text \<open>C3, amended: for \<^verbatim>\<open>Size = 0\<close> the number of records to attempt is 1, but the main
  loop exits with its counter at 0 and the cursor at 1, no injection fires, and the
  output is empty.\<close>

theorem empty_input_empty_output:
  "numRecords Data 0 = Inr 1
   \<and> base_records Data 0 = Inr (0, \<lparr>dataOffset = 1, iptcProfile = []\<rparr>)
   \<and> CreateMalformedIPTCProfile Data 0 = Inr []"
  by (simp add: CreateMalformedIPTCProfile_def base_records_def numRecords_def
      main_loop.simps orphan_sentinel_def overclaimed_length_def zero_length_with_data_def
      sentinel_flooding_def)

text \<open>C4. The main loop emits at most 10 base records, and the output is at most
  \<open>10 * (3 + 2 + 65535)\<close> bytes plus the bytes of the four injections
  (\<open>1 + 10\<close>, \<open>5 + 20\<close>, \<open>5 + 10\<close> and \<open>5 + 10\<close>); it is also at most the input size
  plus the constant 65590.\<close>

theorem CreateMalformedIPTCProfile_bounded:
  assumes "length Data = unat Size"
  shows "\<exists>i s out. base_records Data Size = Inr (i, s) \<and> unat i \<le> 10
           \<and> CreateMalformedIPTCProfile Data Size = Inr out
           \<and> length out \<le> 10 * (3 + 2 + 65535) + (1 + 10) + (5 + 20) + (5 + 10) + (5 + 10)
           \<and> length out \<le> unat Size + 65590"
  using CreateMalformedIPTCProfile_summary [OF assms] .

theorem CreateMalformedIPTCProfile_bounded_witness:
  "length [0, 7 :: u8] = unat (2 :: size_t)
   \<and> (\<exists>i s out. base_records [0, 7] 2 = Inr (i, s) \<and> unat i \<le> 10
           \<and> CreateMalformedIPTCProfile [0, 7] 2 = Inr out
           \<and> length out \<le> 10 * (3 + 2 + 65535) + (1 + 10) + (5 + 20) + (5 + 10) + (5 + 10)
           \<and> length out \<le> unat (2 :: size_t) + 65590)"
  using CreateMalformedIPTCProfile_bounded [of "[0, 7]" 2] by simp

text \<open>C5. Every iteration of the main loop (the body runs under the guard
  \<^verbatim>\<open>i < numRecords && dataOffset < Size\<close>) appends one record: the sentinel, the dataset
  and record bytes, two length bytes \<open>hi\<close>, \<open>lo\<close>, and then exactly
  \<open>256 * hi + lo\<close> payload bytes, real and padding together.\<close>

theorem base_record_length_backed:
  assumes "length Data = unat Size" and "i < n" and "dataOffset s < Size"
    and "base_record Data Size i s = Inr s'"
  shows "main_loop Data Size n i s = main_loop Data Size n (i + 1) s'
       \<and> (\<exists>dataset record hi lo payload.
             iptcProfile s' = iptcProfile s @ [IPTC_SENTINEL, dataset, record, hi, lo] @ payload
             \<and> length payload = 256 * unat hi + unat lo)"
proof (rule base_record_InrE [OF assms(1,3,4)], goal_cases)
  case (1 rc len0 len o2 o3)
  define payload where "payload = take (min (unat len) (unat Size - o3)) (drop o3 Data)
        @ map pad_byte [min (unat len) (unat Size - o3)..<unat len]"
  have "length payload = unat len"
    using assms(1) 1(3) by (simp add: payload_def min_def)
  then have "length payload = 256 * unat (ucast (drop_bit 8 len AND 0xFF) :: u8)
                              + unat (ucast (len AND 0xFF) :: u8)"
    by (simp add: len_bytes)
  moreover have "iptcProfile s' = iptcProfile s @ [IPTC_SENTINEL, Data ! unat (dataOffset s), rc,
                    ucast (drop_bit 8 len AND 0xFF), ucast (len AND 0xFF)] @ payload"
    using 1(9) by (simp add: payload_def length_bytes_def)
  ultimately show ?case
    using main_loop_step [OF assms(2,3,4)] by blast
qed

theorem base_record_length_backed_witness:
  "length [0, 7, 8, 9 :: u8] = unat (4 :: size_t) \<and> (0 :: size_t) < 1
   \<and> dataOffset \<lparr>dataOffset = 1, iptcProfile = []\<rparr> < (4 :: size_t)
   \<and> base_record [0, 7, 8, 9] 4 0 \<lparr>dataOffset = 1, iptcProfile = []\<rparr>
       = Inr \<lparr>dataOffset = 4, iptcProfile = [0x1C, 7, 8, 0, 9, 65, 66, 67, 68, 69, 70, 71, 72, 73]\<rparr>
   \<and> (\<exists>dataset record hi lo payload.
         [0x1C, 7, 8, 0, 9, 65, 66, 67, 68, 69, 70, 71, 72, 73]
           = [IPTC_SENTINEL, dataset, record, hi, lo] @ payload
         \<and> length payload = 256 * unat hi + unat lo)"
  using base_record_length_backed [of "[0, 7, 8, 9]" 4 0 1 "\<lparr>dataOffset = 1, iptcProfile = []\<rparr>"
      "\<lparr>dataOffset = 4, iptcProfile = [0x1C, 7, 8, 0, 9, 65, 66, 67, 68, 69, 70, 71, 72, 73]\<rparr>"]
    base_record_example
  by simp

text \<open>C6, as stated: the padding byte at relative index \<open>j\<close> past the real data, with
  \<open>j = 0\<close> for the first padding byte, is \<^verbatim>\<open>'A' + (j % 26)\<close>. On the six-byte input
  below the first record declares 769 bytes, one real byte (\<open>0x61\<close>, output index 5)
  is left, and the first padding byte (output index 6) is \<open>0x42\<close>, not \<open>0x41\<close>: the loop
  counter of the padding starts at \<^verbatim>\<open>actualLength\<close>, not at 0.\<close>

theorem padding_relative_index_counterexample:
  "\<not> isl (CreateMalformedIPTCProfile [0, 2, 5, 3, 1, 0x61] 6)
   \<and> projr (CreateMalformedIPTCProfile [0, 2, 5, 3, 1, 0x61] 6) ! 5 = 0x61
   \<and> projr (CreateMalformedIPTCProfile [0, 2, 5, 3, 1, 0x61] 6) ! 6 = 0x42
   \<and> pad_byte 0 = 0x41"
proof -
  have ov: "override_length [0, 2, 5, 3, 1, 0x61] 6 0 (push_bit 8 (ucast (([0, 2, 5, 3, 1, 0x61] :: u8 list) ! 3))
              OR ucast (([0, 2, 5, 3, 1, 0x61] :: u8 list) ! 4)) = Inr 769"
    by (simp add: override_length_def Data_at_def)
  have "\<not> isl (CreateMalformedIPTCProfile [0, 2, 5, 3, 1, 0x61] 6)
       \<and> projr (CreateMalformedIPTCProfile [0, 2, 5, 3, 1, 0x61] 6) ! (unat (6 :: size_t) - 1)
          = [0, 2, 5, 3, 1, 0x61] ! (unat (6 :: size_t) - 1)
       \<and> projr (CreateMalformedIPTCProfile [0, 2, 5, 3, 1, 0x61] 6) ! unat (6 :: size_t)
          = pad_byte (unat (6 :: size_t) - 5)"
    by (rule first_padding_byte [OF _ _ ov]) simp_all
  then show ?thesis
    by (simp add: pad_byte_def)
qed

text \<open>C6, amended: in every record of the main loop the payload is the real bytes
  copied from the input followed by the padding, and the byte at payload index \<open>j\<close>
  (counted from the first payload byte) of the padding region
  \<open>actualLength \<le> j < length\<close> is \<^verbatim>\<open>'A' + (j % 26)\<close>; the \<open>k\<close>-th padding byte is
  \<^verbatim>\<open>'A' + ((actualLength + k) % 26)\<close>.\<close>

theorem base_record_padding_pattern:
  assumes "length Data = unat Size" and "i < n" and "dataOffset s < Size"
    and "base_record Data Size i s = Inr s'"
  shows "main_loop Data Size n i s = main_loop Data Size n (i + 1) s'
       \<and> (\<exists>dataset record len real pad.
             iptcProfile s' = iptcProfile s @ [IPTC_SENTINEL, dataset, record] @ length_bytes len
                                @ real @ pad
             \<and> length real + length pad = unat len
             \<and> length real = min (unat len) (unat Size - (unat (dataOffset s') - length real))
             \<and> real = take (length real) (drop (unat (dataOffset s') - length real) Data)
             \<and> (\<forall>j. length real \<le> j \<and> j < unat len \<longrightarrow> (real @ pad) ! j = pad_byte j)
             \<and> (\<forall>k < length pad. pad ! k = pad_byte (length real + k)))"
proof (rule base_record_InrE [OF assms(1,3,4)], goal_cases)
  case (1 rc len0 len o2 o3)
  define a where "a = min (unat len) (unat Size - o3)"
  define real where "real = take a (drop o3 Data)"
  define pad where "pad = map pad_byte [a..<unat len]"
  have lr: "length real = a"
    using assms(1) 1(3) by (simp add: real_def a_def)
  have lp: "length pad = unat len - a" by (simp add: pad_def)
  have ale: "a \<le> unat len" by (simp add: a_def)
  have o: "unat (dataOffset s') - length real = o3"
    using 1(10) lr by (simp add: a_def)
  have pk: "pad ! k = pad_byte (a + k)" if "k < length pad" for k
    using that by (simp add: pad_def)
  have pj: "(real @ pad) ! j = pad_byte j" if "length real \<le> j \<and> j < unat len" for j
  proof -
    from that have "j - a < length pad" "a + (j - a) = j" unfolding lr lp by linarith+
    with pk [of "j - a"] that show ?thesis by (simp add: nth_append lr)
  qed
  have "iptcProfile s' = iptcProfile s @ [IPTC_SENTINEL, Data ! unat (dataOffset s), rc] @ length_bytes len
                                @ real @ pad"
    using 1(9) by (simp add: real_def pad_def a_def)
  moreover have "length real + length pad = unat len" using lr lp ale by simp
  moreover have "length real = min (unat len) (unat Size - (unat (dataOffset s') - length real))"
    unfolding o by (simp add: lr a_def)
  moreover have "real = take (length real) (drop (unat (dataOffset s') - length real) Data)"
    unfolding o by (simp add: lr) (simp add: real_def)
  moreover have "\<forall>j. length real \<le> j \<and> j < unat len \<longrightarrow> (real @ pad) ! j = pad_byte j"
    using pj by blast
  moreover have "\<forall>k < length pad. pad ! k = pad_byte (length real + k)"
    using pk lr by simp
  ultimately show ?case
    using main_loop_step [OF assms(2,3,4)] by blast
qed

theorem base_record_padding_pattern_witness:
  "length [0, 2, 5, 3, 1, 0x61 :: u8] = unat (6 :: size_t) \<and> (0 :: size_t) < 1
   \<and> dataOffset \<lparr>dataOffset = 1, iptcProfile = []\<rparr> < (6 :: size_t)
   \<and> (\<exists>s'. base_record [0, 2, 5, 3, 1, 0x61] 6 0 \<lparr>dataOffset = 1, iptcProfile = []\<rparr> = Inr s'
        \<and> (\<exists>dataset record len real pad.
             iptcProfile s' = [IPTC_SENTINEL, dataset, record] @ length_bytes len @ real @ pad
             \<and> length real + length pad = unat len
             \<and> (\<forall>k < length pad. pad ! k = pad_byte (length real + k))))"
proof -
  have L: "length [0, 2, 5, 3, 1, 0x61 :: u8] = unat (6 :: size_t)" by simp
  have G: "dataOffset \<lparr>dataOffset = 1, iptcProfile = []\<rparr> < (6 :: size_t)" by simp
  have "unat (dataOffset \<lparr>dataOffset = 1, iptcProfile = []\<rparr>) + 3 < 2 ^ 64" by simp
  from base_record_total [OF L this, of 0] obtain s' where
    R: "base_record [0, 2, 5, 3, 1, 0x61] 6 0 \<lparr>dataOffset = 1, iptcProfile = []\<rparr> = Inr s'"
    by blast
  have "(0 :: size_t) < 1" by simp
  from base_record_padding_pattern [OF L this G R] L G R show ?thesis
    by simp blast
qed

text \<open>C7, as stated: two inputs of equal size that differ only in \<^verbatim>\<open>Data[7]\<close> give
  the same main-loop bytes. They do not: for an input of more than 7 bytes the first
  record copies \<^verbatim>\<open>Data[7]\<close> as its third payload byte, at output index 7. The two
  nine-byte inputs below differ only at index 7 (\<open>0x63\<close> and \<open>0x67\<close>, both 3 modulo 4, so
  both outputs carry the flooding suffix) and their main-loop bytes differ at
  index 7.\<close>

theorem main_loop_copies_data7_counterexample:
  "\<not> isl (base_records [0, 2, 5, 3, 1, 0x61, 0x62, 0x63, 0x64] 9)
   \<and> \<not> isl (base_records [0, 2, 5, 3, 1, 0x61, 0x62, 0x67, 0x64] 9)
   \<and> iptcProfile (snd (projr (base_records [0, 2, 5, 3, 1, 0x61, 0x62, 0x63, 0x64] 9))) ! 7 = 0x63
   \<and> iptcProfile (snd (projr (base_records [0, 2, 5, 3, 1, 0x61, 0x62, 0x67, 0x64] 9))) ! 7 = 0x67"
  using base_records_index7 [of "[0, 2, 5, 3, 1, 0x61, 0x62, 0x63, 0x64]" 9]
    base_records_index7 [of "[0, 2, 5, 3, 1, 0x61, 0x62, 0x67, 0x64]" 9]
  by simp

text \<open>C7, amended: for an input of more than 7 bytes, replacing \<^verbatim>\<open>Data[7]\<close> by \<open>b\<close>
  leaves the number of base records and the main-loop bytes as they are except for the
  byte at output index 7, which is \<^verbatim>\<open>Data[7]\<close> itself; the bytes \<open>g\<close> of the first three
  injections are the same, and the rest of the output differs only in whether the
  sentinel-flooding suffix (five sentinels and at most 10 input bytes, the same
  \<open>tail\<close> for both inputs) is there.\<close>

theorem data7_changes_one_byte_and_flooding:
  assumes "length Data = unat Size" and "7 < Size"
  shows "\<exists>i s g tail.
           base_records Data Size = Inr (i, s)
         \<and> base_records (Data[7 := b]) Size = Inr (i, s\<lparr>iptcProfile := (iptcProfile s)[7 := b]\<rparr>)
         \<and> 7 < length (iptcProfile s) \<and> iptcProfile s ! 7 = Data ! 7
         \<and> length tail \<le> 10
         \<and> CreateMalformedIPTCProfile Data Size =
             Inr (iptcProfile s @ g @
                  (if 8 < Size \<and> Data ! 7 mod 4 = 3 then replicate 5 IPTC_SENTINEL @ tail else []))
         \<and> CreateMalformedIPTCProfile (Data[7 := b]) Size =
             Inr ((iptcProfile s)[7 := b] @ g @
                  (if 8 < Size \<and> b mod 4 = 3 then replicate 5 IPTC_SENTINEL @ tail else []))"
  using assms by (rule data7_general)

theorem data7_changes_one_byte_and_flooding_witness:
  "length [0, 2, 5, 3, 1, 0x61, 0x62, 0x63, 0x64 :: u8] = unat (9 :: size_t) \<and> (7 :: size_t) < 9
   \<and> (\<exists>i s g tail.
           base_records [0, 2, 5, 3, 1, 0x61, 0x62, 0x63, 0x64] 9 = Inr (i, s)
         \<and> base_records [0, 2, 5, 3, 1, 0x61, 0x62, 0x04, 0x64] 9
              = Inr (i, s\<lparr>iptcProfile := (iptcProfile s)[7 := 0x04]\<rparr>)
         \<and> 7 < length (iptcProfile s) \<and> iptcProfile s ! 7 = 0x63
         \<and> length tail \<le> 10
         \<and> CreateMalformedIPTCProfile [0, 2, 5, 3, 1, 0x61, 0x62, 0x63, 0x64] 9 =
             Inr (iptcProfile s @ g @ replicate 5 IPTC_SENTINEL @ tail)
         \<and> CreateMalformedIPTCProfile [0, 2, 5, 3, 1, 0x61, 0x62, 0x04, 0x64] 9 =
             Inr ((iptcProfile s)[7 := 0x04] @ g))"
  using data7_changes_one_byte_and_flooding [of "[0, 2, 5, 3, 1, 0x61, 0x62, 0x63, 0x64]" 9 "0x04"]
  by simp




text \<open>C9. The guard of both entry points holds exactly for \<^verbatim>\<open>Size < 8\<close> or
  \<^verbatim>\<open>Size > 8192\<close>; the comparison with \<^verbatim>\<open>MAX_IPTC_SIZE\<close> adds nothing to
  \<^verbatim>\<open>IsInvalidSize\<close>; and an entry point returns 0 with an empty trace (no image
  constructed, no profile generated, no other library call) exactly for these sizes.\<close>

theorem size_gate_window:
  "(IsInvalidSize Size MIN_IPTC_SIZE \<or> MAX_IPTC_SIZE < Size) = (Size < 8 \<or> 8192 < Size)
   \<and> (IsInvalidSize Size MIN_IPTC_SIZE \<or> MAX_IPTC_SIZE < Size) = IsInvalidSize Size MIN_IPTC_SIZE
   \<and> (LLVMFuzzerTestOneInput_advanced lib Data Size = (Returns 0, [])) = (Size < 8 \<or> 8192 < Size)
   \<and> (snd (LLVMFuzzerTestOneInput_advanced lib Data Size) = []) = (Size < 8 \<or> 8192 < Size)
   \<and> (LLVMFuzzerTestOneInput_basic lib' Data Size = (Returns 0, [])) = (Size < 8 \<or> 8192 < Size)
   \<and> (snd (LLVMFuzzerTestOneInput_basic lib' Data Size) = []) = (Size < 8 \<or> 8192 < Size)"
proof -
  have g2: "(IsInvalidSize Size MIN_IPTC_SIZE \<or> MAX_IPTC_SIZE < Size) = IsInvalidSize Size MIN_IPTC_SIZE"
    using size_gate [of Size] by (auto simp: IsInvalidSize_def MIN_IPTC_SIZE_def)
  have a: "(snd (LLVMFuzzerTestOneInput_advanced lib Data Size) = []) = (Size < 8 \<or> 8192 < Size)"
  proof (cases "IsInvalidSize Size MIN_IPTC_SIZE \<or> MAX_IPTC_SIZE < Size")
    case True
    then show ?thesis
      using size_gate [of Size] by (simp add: LLVMFuzzerTestOneInput_advanced_def)
  next
    case False
    from advanced_trace [OF False] False show ?thesis
      using size_gate [of Size] by simp
  qed
  have b: "(snd (LLVMFuzzerTestOneInput_basic lib' Data Size) = []) = (Size < 8 \<or> 8192 < Size)"
  proof (cases "IsInvalidSize Size MIN_IPTC_SIZE \<or> MAX_IPTC_SIZE < Size")
    case True
    then show ?thesis
      using size_gate [of Size] by (simp add: LLVMFuzzerTestOneInput_basic_def)
  next
    case False
    then have "snd (LLVMFuzzerTestOneInput_basic lib' Data Size) \<noteq> []"
      by (simp add: LLVMFuzzerTestOneInput_basic_def snd_catch_and_return basic_tests_trace)
    with False show ?thesis
      using size_gate [of Size] by simp
  qed
  have a': "(LLVMFuzzerTestOneInput_advanced lib Data Size = (Returns 0, [])) = (Size < 8 \<or> 8192 < Size)"
  proof (cases "IsInvalidSize Size MIN_IPTC_SIZE \<or> MAX_IPTC_SIZE < Size")
    case True
    then show ?thesis
      using size_gate [of Size] by (simp add: LLVMFuzzerTestOneInput_advanced_def)
  next
    case False
    with a size_gate [of Size] have "snd (LLVMFuzzerTestOneInput_advanced lib Data Size) \<noteq> []" by simp
    then have "LLVMFuzzerTestOneInput_advanced lib Data Size \<noteq> (Returns 0, [])" by auto
    with False size_gate [of Size] show ?thesis by simp
  qed
  have b': "(LLVMFuzzerTestOneInput_basic lib' Data Size = (Returns 0, [])) = (Size < 8 \<or> 8192 < Size)"
  proof (cases "IsInvalidSize Size MIN_IPTC_SIZE \<or> MAX_IPTC_SIZE < Size")
    case True
    then show ?thesis
      using size_gate [of Size] by (simp add: LLVMFuzzerTestOneInput_basic_def)
  next
    case False
    with b size_gate [of Size] have "snd (LLVMFuzzerTestOneInput_basic lib' Data Size) \<noteq> []" by simp
    then have "LLVMFuzzerTestOneInput_basic lib' Data Size \<noteq> (Returns 0, [])" by auto
    with False size_gate [of Size] show ?thesis by simp
  qed
  show ?thesis
    using size_gate [of Size] g2 a a' b b' by blast
qed

text \<open>C10. In every iteration of the main loop the dataset byte is read from the input
  at the cursor, whatever the fallback constant is (the loop guard already gives
  \<^verbatim>\<open>dataOffset < Size\<close>); the record byte is the next input byte when there is one and
  the constant 5 otherwise, as on the two-byte input of the witness.\<close>

theorem dataset_byte_from_input:
  assumes "length Data = unat Size" and "i < n" and "dataOffset s < Size"
    and "base_record Data Size i s = Inr s'"
  shows "main_loop Data Size n i s = main_loop Data Size n (i + 1) s'
       \<and> unat (dataOffset s) < length Data
       \<and> (\<forall>dflt. next_or Data Size dflt (dataOffset s)
                    = Inr (Data ! unat (dataOffset s), dataOffset s + 1))
       \<and> iptcProfile s' ! (length (iptcProfile s) + 1) = Data ! unat (dataOffset s)
       \<and> iptcProfile s' ! (length (iptcProfile s) + 2)
           = (if unat (dataOffset s) + 1 < unat Size then Data ! (unat (dataOffset s) + 1) else 5)"
proof (rule base_record_InrE [OF assms(1,3,4)], goal_cases)
  case (1 rc len0 len o2 o3)
  have o: "unat (dataOffset s) < length Data"
    using assms(1,3) by (simp add: word_less_nat_alt)
  then have nx: "\<forall>dflt. next_or Data Size dflt (dataOffset s)
                    = Inr (Data ! unat (dataOffset s), dataOffset s + 1)"
    using assms(3) by (simp add: next_or_def Data_at_def)
  obtain tl where p: "iptcProfile s' = iptcProfile s @ [IPTC_SENTINEL, Data ! unat (dataOffset s), rc] @ tl"
    using 1(9) by simp
  have "iptcProfile s' ! (length (iptcProfile s) + 1) = Data ! unat (dataOffset s)"
    "iptcProfile s' ! (length (iptcProfile s) + 2) = rc"
    unfolding p by (simp_all add: nth_append)
  with o nx 1(7) main_loop_step [OF assms(2,3,4)] show ?case
    by simp
qed

theorem dataset_byte_from_input_witness:
  "length [0, 7 :: u8] = unat (2 :: size_t) \<and> (0 :: size_t) < 1
   \<and> dataOffset \<lparr>dataOffset = 1, iptcProfile = []\<rparr> < (2 :: size_t)
   \<and> base_record [0, 7] 2 0 \<lparr>dataOffset = 1, iptcProfile = []\<rparr>
       = Inr \<lparr>dataOffset = 2, iptcProfile = [0x1C, 7, 5, 0, 0]\<rparr>
   \<and> next_or [0, 7] 2 2 1 = Inr (7, 2)
   \<and> [0x1C, 7, 5, 0, 0 :: u8] ! 1 = [0, 7] ! 1
   \<and> [0x1C, 7, 5, 0, 0 :: u8] ! 2 = 5"
  using dataset_byte_from_input [of "[0, 7]" 2 0 1 "\<lparr>dataOffset = 1, iptcProfile = []\<rparr>"
      "\<lparr>dataOffset = 2, iptcProfile = [0x1C, 7, 5, 0, 0]\<rparr>"]
    base_record_fallback_example
  by simp

end
